theory Spec2Isabelle
  imports Complex_Main "HOL-Library.Signed_Division" "HOL-Library.Multiset"
begin

section \<open>Numbers, vectors and array primitives\<close>

text \<open>
  The TypeScript source computes with JavaScript numbers. The puzzle shape, the tile count
  derived from it and the grid coordinates are whatever numbers the caller's shape leads to,
  and are modelled as rationals; the counters of loops, the positions in arrays and the
  entries of a shuffle array are integers, modelled as \<open>int\<close>. Arithmetic is exact, as it
  is in the source for integers below \<open>2^53\<close> and for the binary fractions used here
  (halves and quarters of small numbers). The numbers that are not finite are left out: a
  shape with such a component does not pass the first test of \<open>init\<close>.

  The remainder operator \<open>a % b\<close> truncates the quotient towards zero: on integers it is
  \<open>smod\<close>, on fractional numbers \<open>remainder\<close>. Both are meant for \<open>b \<noteq> 0\<close>, as is
  \<open>Math.floor (a / b)\<close>, the floor of the quotient.
\<close>

datatype 'a vector2 = Vector2 (vx: 'a) (vy: 'a)

definition subtract :: "rat vector2 \<Rightarrow> rat vector2 \<Rightarrow> rat vector2" where
  "subtract a b = Vector2 (vx a - vx b) (vy a - vy b)"

definition lengthSquared :: "rat vector2 \<Rightarrow> rat" where
  "lengthSquared v = vx v * vx v + vy v * vy v"

definition isInteger :: "rat \<Rightarrow> bool" where
  "isInteger q \<longleftrightarrow> q = of_int \<lfloor>q\<rfloor>"

definition truncated :: "rat \<Rightarrow> int" where
  "truncated q = (if 0 \<le> q then \<lfloor>q\<rfloor> else \<lceil>q\<rceil>)"

definition remainder :: "rat \<Rightarrow> rat \<Rightarrow> rat" where
  "remainder a b = a - b * of_int (truncated (a / b))"

text \<open>
  The values \<open>n = 0, 1, 2, \<dots>\<close> below \<open>q\<close>, in the order in which a loop
  \<open>for (n = 0; n < q; n++)\<close> visits them.
\<close>

definition countTo :: "rat \<Rightarrow> int list" where
  "countTo q = [0 .. \<lceil>q\<rceil> - 1]"

text \<open>
  The lengths an array can have. \<open>Array(q)\<close> throws a \<open>RangeError\<close> for every other
  number, and so does a \<open>push\<close> onto an array of the largest length.
\<close>

definition arrayLength :: "rat \<Rightarrow> bool" where
  "arrayLength q \<longleftrightarrow> isInteger q \<and> 0 \<le> q \<and> q \<le> 4294967295"

text \<open>\<open>Array.prototype.indexOf\<close>: the first position of the value, or \<open>-1\<close>.\<close>

fun indexOf :: "int list \<Rightarrow> int \<Rightarrow> int" where
  "indexOf [] v = - 1"
| "indexOf (a # as) v =
     (if a = v then 0 else (let r = indexOf as v in if r < 0 then - 1 else r + 1))"

text \<open>
  \<open>arr.slice(0, e)\<close> for an integer end \<open>e\<close>: a negative end counts from the end of the
  array. An end that is not an integer is truncated towards zero first.
\<close>

definition slice0 :: "'a list \<Rightarrow> int \<Rightarrow> 'a list" where
  "slice0 xs e = (if e < 0 then take (nat (int (length xs) + e)) xs else take (nat e) xs)"

section \<open>Tiles and the game object\<close>

datatype action = Start | Finish | WillMove | WillStall

datatype error =
    ShapeNotInteger | ShapeFaulty | DistanceFaulty
  | NotShuffled | IndicesMissing | NotSolvable
  | RangeError | TypeError

text \<open>
  A tile entity with its \<open>SPTile\<close> component. \<open>alive\<close> is the engine's flag of the
  entity (added to the engine or not); the 3D transform of the entity is not modelled.
\<close>

record sptile =
  index :: int
  gridOrigin :: "rat vector2"
  gridCurrent :: "rat vector2"
  alive :: bool

text \<open>
  The \<open>SPGame\<close> object. Entities are identified by their position in \<open>tiles\<close>.
  \<open>invoked\<close> logs the calls of the four caller-supplied actions in order, and
  \<open>moving\<close> holds the animations (\<open>MoveTransformComponent\<close>) whose completion callback
  has not run yet, each as the pair of the animated tile and the void tile it captured.
\<close>

record spgame =
  tiles :: "sptile list"
  isRunning :: bool
  lockedInput :: bool
  puzzleShape :: "rat vector2"
  tileCnt :: rat
  fixedShuffleArr :: "int list option"
  invoked :: "action list"
  moving :: "(nat \<times> nat) list"

section \<open>Solvability proof\<close>

definition permutationSum :: "int list \<Rightarrow> int" where
  "permutationSum arr =
     (let voidIndex = int (length arr) - 1;
          permutationArr =
            map (\<lambda>n. n - int (length (filter (\<lambda>i. i < n) (slice0 arr (indexOf arr n)))))
              [1 .. voidIndex - 1]
      in foldl (+) 0 permutationArr)"

text \<open>
  \<open>permutationProof\<close> reads one field of the game object, \<open>this.puzzleShape\<close>, which is
  the first argument here.
\<close>

definition permutationProof :: "rat vector2 \<Rightarrow> int list \<Rightarrow> bool" where
  "permutationProof shape arr =
     (let voidIndex = int (length arr) - 1;
          rowIndex = \<lfloor>of_int (indexOf arr voidIndex) / vy shape\<rfloor>;
          rowBottomCnt = vx shape - of_int rowIndex
      in if remainder (vy shape) 2 = 1
         then permutationSum arr smod 2 = 0
         else remainder (of_int (permutationSum arr) + rowBottomCnt) 2 = 1)"



section \<open>Fixed shuffle validation\<close>

text \<open>
  \<open>Array.prototype.toString\<close> joins the renderings of the entries with commas; an
  integer is rendered in decimal, with a leading minus sign when negative.
\<close>

definition digitChar :: "nat \<Rightarrow> char" where
  "digitChar d = char_of (48 + d)"

fun natToString :: "nat \<Rightarrow> string" where
  "natToString n =
     (if n < 10 then [digitChar n] else natToString (n div 10) @ [digitChar (n mod 10)])"

declare natToString.simps [simp del]

definition numberToString :: "int \<Rightarrow> string" where
  "numberToString i =
     (if i < 0 then CHR ''-'' # natToString (nat (- i)) else natToString (nat i))"

fun join :: "string list \<Rightarrow> string" where
  "join [] = []"
| "join [s] = s"
| "join (s # t # ts) = s @ CHR '','' # join (t # ts)"

definition toString :: "int list \<Rightarrow> string" where
  "toString arr = join (map numberToString arr)"

text \<open>
  \<open>setfixedShuffleArr\<close>. A \<open>throw\<close> is \<open>Inl\<close> of the error and the object as it is at
  that moment. The first statement, \<open>Array(this.tileCnt)\<close>, throws a \<open>RangeError\<close> unless
  the tile count is a length an array can have; the loop then fills the comparator with
  the numbers below the tile count.
\<close>

definition setfixedShuffleArr :: "spgame \<Rightarrow> int list \<Rightarrow> (error \<times> spgame) + spgame" where
  "setfixedShuffleArr this arr =
     (if \<not> arrayLength (tileCnt this) then Inl (RangeError, this)
      else
        let comperator = countTo (tileCnt this);
            arrSort = sort arr
        in if toString arr = toString comperator then Inl (NotShuffled, this)
           else if toString arrSort \<noteq> toString comperator then Inl (IndicesMissing, this)
           else if \<not> permutationProof (puzzleShape this) arr then Inl (NotSolvable, this)
           else Inr (this\<lparr>fixedShuffleArr := Some arr\<rparr>))"

section \<open>Tile placement and visibility\<close>

text \<open>
  \<open>this.tiles[q]\<close>: \<open>undefined\<close> unless \<open>q\<close> is the position of an element.
\<close>

definition tileAt :: "sptile list \<Rightarrow> rat \<Rightarrow> sptile option" where
  "tileAt ts q =
     (if isInteger q \<and> 0 \<le> q \<and> q < of_nat (length ts) then Some (ts ! nat \<lfloor>q\<rfloor>) else None)"

text \<open>
  \<open>engine.addEntity\<close> and \<open>engine.removeEntity\<close> set and clear the entity's
  \<open>alive\<close> flag. Reading a property of \<open>undefined\<close> raises a \<open>TypeError\<close>.
\<close>

definition voidTileVisibility :: "bool \<Rightarrow> spgame \<Rightarrow> (error \<times> spgame) + spgame" where
  "voidTileVisibility enable this =
     (case tileAt (tiles this) (tileCnt this - 1) of
        None \<Rightarrow> Inl (TypeError, this)
      | Some voidTile \<Rightarrow>
          if enable \<and> \<not> alive voidTile then
            Inr (this\<lparr>tiles := (tiles this)[nat \<lfloor>tileCnt this - 1\<rfloor> := voidTile\<lparr>alive := True\<rparr>]\<rparr>)
          else if \<not> enable \<and> alive voidTile then
            Inr (this\<lparr>tiles := (tiles this)[nat \<lfloor>tileCnt this - 1\<rfloor> := voidTile\<lparr>alive := False\<rparr>]\<rparr>)
          else Inr this)"

definition repositionTile :: "spgame \<Rightarrow> sptile \<Rightarrow> int \<Rightarrow> sptile" where
  "repositionTile this tile newGridIndex =
     (let row = \<lfloor>of_int newGridIndex / vy (puzzleShape this)\<rfloor>;
          column = remainder (of_int newGridIndex) (vy (puzzleShape this))
      in tile\<lparr>gridCurrent := Vector2 (of_int row) column\<rparr>)"

definition checkTilePosition :: "sptile \<Rightarrow> bool" where
  "checkTilePosition tileComp \<longleftrightarrow>
     vx (gridCurrent tileComp) = vx (gridOrigin tileComp) \<and>
     vy (gridCurrent tileComp) = vy (gridOrigin tileComp)"

definition checkAndFinish :: "spgame \<Rightarrow> (error \<times> spgame) + (bool \<times> spgame)" where
  "checkAndFinish this =
     (case tileAt (tiles this) (tileCnt this - 1) of
        None \<Rightarrow> Inl (TypeError, this)
      | Some voidTile \<Rightarrow>
          if checkTilePosition voidTile then
            (let uncheckedTiles = slice0 (tiles this) (truncated (tileCnt this - 2));
                 result = list_all (\<lambda>x. x = True) (map checkTilePosition uncheckedTiles)
             in if result then
                  (case voidTileVisibility True (this\<lparr>invoked := invoked this @ [Finish]\<rparr>) of
                     Inl e \<Rightarrow> Inl e
                   | Inr s \<Rightarrow> Inr (True, s\<lparr>isRunning := False\<rparr>))
                else Inr (False, this))
          else Inr (False, this))"

section \<open>Shuffling\<close>

text \<open>
  \<open>Math.random\<close> is an oracle. Its value is used in one expression only,
  \<open>Math.floor(Math.random() * (i + 1))\<close>, the floor of a rounded product of doubles;
  \<open>random k n\<close> is the value of \<open>Math.floor(Math.random() * n)\<close> at the \<open>k\<close>-th call of
  \<open>Math.random\<close>, so that no rounding is computed here. Any function is allowed as the
  oracle, which covers every sequence of values of \<open>Math.random\<close>. Since the language
  places \<open>Math.random()\<close> in the interval from 0 (inclusive) to 1 (exclusive), the value is
  one of \<open>0, \<dots>, n - 1\<close> (\<open>randomInRange\<close>); the swap of \<open>shuffle\<close> is described for
  such values only, where the drawn position lies inside the array.
  \<open>shuffleFrom random k i arr\<close> runs the loop of \<open>shuffle\<close> from loop index \<open>i\<close> down to 1
  and returns the array with the number of calls made so far.
\<close>

definition randomInRange :: "(nat \<Rightarrow> nat \<Rightarrow> nat) \<Rightarrow> bool" where
  "randomInRange random \<longleftrightarrow> (\<forall>k n. 0 < n \<longrightarrow> random k n < n)"

fun shuffleFrom ::
  "(nat \<Rightarrow> nat \<Rightarrow> nat) \<Rightarrow> nat \<Rightarrow> nat \<Rightarrow> int list \<Rightarrow> int list \<times> nat" where
  "shuffleFrom random k 0 arr = (arr, k)"
| "shuffleFrom random k (Suc i) arr =
     (let j = random k (Suc i + 1)
      in shuffleFrom random (Suc k) i (arr[Suc i := arr ! j, j := arr ! Suc i]))"

definition shuffle :: "(nat \<Rightarrow> nat \<Rightarrow> nat) \<Rightarrow> nat \<Rightarrow> int list \<Rightarrow> int list \<times> nat" where
  "shuffle random k arr = shuffleFrom random k (length arr - 1) arr"

text \<open>
  The loop of \<open>getShuffleArray\<close>, which may run forever; it reads \<open>this.puzzleShape\<close>
  and \<open>this.tileCnt\<close>, the first two arguments here.
\<close>

partial_function (option) shuffleUntilSolvable ::
  "rat vector2 \<Rightarrow> rat \<Rightarrow> (nat \<Rightarrow> nat \<Rightarrow> nat) \<Rightarrow> nat \<Rightarrow> int list option" where
  "shuffleUntilSolvable shape cnt random k =
     (case shuffle random k (countTo cnt) of
        (shuffleArr, k') \<Rightarrow>
          if permutationProof shape shuffleArr then Some shuffleArr
          else shuffleUntilSolvable shape cnt random k')"

declare shuffleUntilSolvable.simps [code]

definition getShuffleArray ::
  "spgame \<Rightarrow> (nat \<Rightarrow> nat \<Rightarrow> nat) \<Rightarrow> ((error \<times> spgame) + int list) option" where
  "getShuffleArray this random =
     (case fixedShuffleArr this of
        Some arr \<Rightarrow> Some (Inr arr)
      | None \<Rightarrow>
          if \<not> arrayLength (tileCnt this) then Some (Inl (RangeError, this))
          else map_option Inr
                 (shuffleUntilSolvable (puzzleShape this) (tileCnt this) random 0))"

section \<open>Game play\<close>

text \<open>
  \<open>gameTurn\<close> locks the input and attaches the animation to the clicked tile; the
  callback of the animation is \<open>moveFinished\<close>, which runs when the animation of the pair
  (clicked tile, void tile) completes. The entities captured by the callback are tiles of
  the puzzle.
\<close>

definition gameTurn :: "spgame \<Rightarrow> nat \<Rightarrow> nat \<Rightarrow> spgame" where
  "gameTurn this t vt = this\<lparr>lockedInput := True, moving := moving this @ [(t, vt)]\<rparr>"

definition gamePlay ::
  "spgame \<Rightarrow> nat option \<Rightarrow> (nat \<Rightarrow> nat \<Rightarrow> nat) \<Rightarrow> ((error \<times> spgame) + spgame) option" where
  "gamePlay this tile random =
     (if \<not> isRunning this then
        (case voidTileVisibility False (this\<lparr>invoked := invoked this @ [Start]\<rparr>) of
           Inl e \<Rightarrow> Some (Inl e)
         | Inr s \<Rightarrow>
            (case getShuffleArray s random of
               None \<Rightarrow> None
             | Some (Inl e) \<Rightarrow> Some (Inl e)
             | Some (Inr shuffleArr) \<Rightarrow>
                 Some (Inr (s\<lparr>tiles :=
                              map (\<lambda>x. repositionTile s x (indexOf shuffleArr (index x))) (tiles s),
                            isRunning := True\<rparr>))))
      else if \<not> lockedInput this \<and> tile \<noteq> None then
        (case tileAt (tiles this) (tileCnt this - 1) of
           None \<Rightarrow> Some (Inl (TypeError, this))
         | Some vtComp \<Rightarrow>
            (case tileAt (tiles this) (of_nat (the tile)) of
               None \<Rightarrow> Some (Inl (TypeError, this))
             | Some tComp \<Rightarrow>
                 let vec = subtract (gridCurrent vtComp) (gridCurrent tComp)
                 in if lengthSquared vec = 1 then
                      Some (Inr (gameTurn (this\<lparr>invoked := invoked this @ [WillMove]\<rparr>)
                                   (the tile) (nat \<lfloor>tileCnt this - 1\<rfloor>)))
                    else Some (Inr (this\<lparr>invoked := invoked this @ [WillStall]\<rparr>))))
      else Some (Inr this))"

fun moveFinished :: "spgame \<Rightarrow> nat \<times> nat \<Rightarrow> (error \<times> spgame) + spgame" where
  "moveFinished this (t, vt) =
     (let tTemp = gridCurrent (tiles this ! t);
          ts1 = (tiles this)[t := (tiles this ! t)\<lparr>gridCurrent := gridCurrent (tiles this ! vt)\<rparr>];
          ts2 = ts1[vt := (ts1 ! vt)\<lparr>gridCurrent := tTemp\<rparr>]
      in case checkAndFinish (this\<lparr>tiles := ts2, moving := remove1 (t, vt) (moving this)\<rparr>) of
           Inl e \<Rightarrow> Inl e
         | Inr (result, s) \<Rightarrow> Inr (s\<lparr>lockedInput := False\<rparr>))"

declare moveFinished.simps [simp del]

definition resolve :: "spgame \<Rightarrow> (error \<times> spgame) + spgame" where
  "resolve this =
     (let s = this\<lparr>isRunning := False\<rparr>
      in voidTileVisibility True
           (s\<lparr>tiles := map (\<lambda>x. repositionTile s x (index x)) (tiles s)\<rparr>))"

definition reShuffle ::
  "spgame \<Rightarrow> int list option \<Rightarrow> (nat \<Rightarrow> nat \<Rightarrow> nat)
   \<Rightarrow> ((error \<times> spgame) + spgame) option" where
  "reShuffle this fixedArr random =
     (let s = this\<lparr>isRunning := False\<rparr>
      in case fixedArr of
           Some arr \<Rightarrow>
             (case setfixedShuffleArr s arr of
                Inl e \<Rightarrow> Some (Inl e)
              | Inr s' \<Rightarrow> gamePlay s' None random)
         | None \<Rightarrow> gamePlay (s\<lparr>fixedShuffleArr := None\<rparr>) None random)"

section \<open>Construction\<close>

text \<open>
  \<open>shapeCheck\<close> is the test of \<open>init\<close> on the puzzle shape. The first condition of the
  source asks whether the sum of the two components is an integer.
\<close>

definition shapeCheck :: "rat vector2 \<Rightarrow> error option" where
  "shapeCheck shape =
     (if remainder (vx shape + vy shape) 1 \<noteq> 0 then Some ShapeNotInteger
      else if vx shape < 2 \<or> vy shape < 2 then Some ShapeFaulty
      else None)"

text \<open>
  The setup object; the optional flags are \<open>None\<close> when the caller leaves them out.
\<close>

record spsetup =
  setupShape :: "rat vector2"
  setupDistance :: "rat vector2"
  setupAddToEngine :: "bool option"
  setupStartShuffle :: "bool option"
  setupFixedShuffle :: "int list option"

definition newTile :: "rat vector2 \<Rightarrow> int \<Rightarrow> sptile" where
  "newTile shape n =
     (let row = \<lfloor>of_int n / vy shape\<rfloor>;
          column = remainder (of_int n) (vy shape)
      in \<lparr>index = n, gridOrigin = Vector2 (of_int row) column,
          gridCurrent = Vector2 (of_int row) column, alive = False\<rparr>)"

text \<open>
  \<open>init\<close>, the body of the constructor. When it throws, no object exists, so only the
  error is returned. The shape is taken as the caller gives it: the tile count is the
  product of its components, whether or not they are integers. The loop pushes one tile for
  every number below the tile count, and the \<open>push\<close> that would make the array of tiles
  longer than an array can be throws a \<open>RangeError\<close> (the memory that so many tiles need is
  not modelled). \<open>engine.addEntity\<close> on the puzzle entity adds its children, the tiles,
  with it.
\<close>

definition init :: "spsetup \<Rightarrow> (nat \<Rightarrow> nat \<Rightarrow> nat) \<Rightarrow> (error + spgame) option" where
  "init setup random =
     (case shapeCheck (setupShape setup) of
        Some e \<Rightarrow> Some (Inl e)
      | None \<Rightarrow>
         (if vx (setupDistance setup) \<le> 0 \<or> vy (setupDistance setup) \<le> 0
          then Some (Inl DistanceFaulty)
          else
           (let s0 = \<lparr>tiles = [], isRunning = False, lockedInput = False,
                      puzzleShape = setupShape setup,
                      tileCnt = vx (setupShape setup) * vy (setupShape setup),
                      fixedShuffleArr = None, invoked = [], moving = []\<rparr>
            in (case (case setupFixedShuffle setup of
                        Some arr \<Rightarrow> setfixedShuffleArr s0 arr
                      | None \<Rightarrow> Inr s0) of
                  Inl (e, s) \<Rightarrow> Some (Inl e)
                | Inr s1 \<Rightarrow>
                   (if 4294967295 < tileCnt s1 then Some (Inl RangeError)
                    else
                     (let s2 = s1\<lparr>tiles := map (newTile (setupShape setup)) (countTo (tileCnt s1))\<rparr>
                      in (case (if setupStartShuffle setup = Some True
                                then gamePlay s2 None random
                                else Some (Inr s2)) of
                            None \<Rightarrow> None
                          | Some (Inl (e, s)) \<Rightarrow> Some (Inl e)
                          | Some (Inr s3) \<Rightarrow>
                             (if setupAddToEngine setup \<noteq> Some False
                              then Some (Inr (s3\<lparr>tiles := map (\<lambda>x. x\<lparr>alive := True\<rparr>) (tiles s3)\<rparr>))
                              else Some (Inr s3)))))))))"

section \<open>The puzzle as a state machine\<close>

text \<open>
  What can happen to a constructed puzzle: a click (on a tile or on nothing), the end of an
  animation, and the public methods \<open>resolve\<close> and \<open>reShuffle\<close>. After a call that
  throws, the object lives on in the state it had at the throw.
\<close>

datatype event =
    Click "nat option"
  | AnimationDone "nat \<times> nat"
  | Resolve
  | ReShuffle "int list option"

definition afterCall :: "(error \<times> spgame) + spgame \<Rightarrow> spgame" where
  "afterCall r = (case r of Inl (e, s) \<Rightarrow> s | Inr s \<Rightarrow> s)"

definition step :: "spgame \<Rightarrow> event \<Rightarrow> (nat \<Rightarrow> nat \<Rightarrow> nat) \<Rightarrow> spgame option" where
  "step this ev random =
     (case ev of
        Click tile \<Rightarrow> map_option afterCall (gamePlay this tile random)
      | AnimationDone p \<Rightarrow>
          if p \<in> set (moving this) then Some (afterCall (moveFinished this p)) else Some this
      | Resolve \<Rightarrow> Some (afterCall (resolve this))
      | ReShuffle arr \<Rightarrow> map_option afterCall (reShuffle this arr random))"

fun run :: "spgame \<Rightarrow> (event \<times> (nat \<Rightarrow> nat \<Rightarrow> nat)) list \<Rightarrow> spgame option" where
  "run s [] = Some s"
| "run s ((ev, random) # evs) =
     (case step s ev random of None \<Rightarrow> None | Some s' \<Rightarrow> run s' evs)"

text \<open>The states that a puzzle constructed from a given setup can be in.\<close>

inductive reachable :: "spsetup \<Rightarrow> spgame \<Rightarrow> bool" where
  constructed:
    "randomInRange random \<Longrightarrow> init su random = Some (Inr s) \<Longrightarrow> reachable su s"
| stepped:
    "reachable su s \<Longrightarrow> randomInRange random \<Longrightarrow> step s ev random = Some s'
     \<Longrightarrow> reachable su s'"

section \<open>Properties of states\<close>

text \<open>The cells of a grid, row by row.\<close>

definition gridCells :: "rat vector2 \<Rightarrow> rat vector2 list" where
  "gridCells shape =
     concat (map (\<lambda>r. map (\<lambda>c. Vector2 (of_int r) (of_int c)) (countTo (vy shape)))
               (countTo (vx shape)))"

text \<open>No two tiles on one cell, and every cell of the grid taken.\<close>

definition gridPermutation :: "spgame \<Rightarrow> bool" where
  "gridPermutation this \<longleftrightarrow>
     distinct (map gridCurrent (tiles this)) \<and>
     set (map gridCurrent (tiles this)) = set (gridCells (puzzleShape this))"

text \<open>The cell of a one-dimensional index, as the source computes it in three places.\<close>

definition toGrid :: "rat vector2 \<Rightarrow> int \<Rightarrow> rat vector2" where
  "toGrid shape n =
     Vector2 (of_int \<lfloor>of_int n / vy shape\<rfloor>) (remainder (of_int n) (vy shape))"

text \<open>
  What the constructor establishes from a shape with integer components and no method
  changes: a shape of at least 2 by 2, one tile per cell, numbered in order with its
  origin cell, a stored fixed shuffle that is an arrangement of all tile indices, and
  pending animations that refer to tiles.
\<close>

definition wellFormed :: "spgame \<Rightarrow> bool" where
  "wellFormed this \<longleftrightarrow>
     isInteger (vx (puzzleShape this)) \<and> isInteger (vy (puzzleShape this)) \<and>
     2 \<le> vx (puzzleShape this) \<and> 2 \<le> vy (puzzleShape this) \<and>
     tileCnt this = vx (puzzleShape this) * vy (puzzleShape this) \<and>
     tileCnt this \<le> 4294967295 \<and>
     map index (tiles this) = countTo (tileCnt this) \<and>
     map gridOrigin (tiles this) = map (toGrid (puzzleShape this)) (countTo (tileCnt this)) \<and>
     (case fixedShuffleArr this of
        None \<Rightarrow> True
      | Some arr \<Rightarrow> distinct arr \<and> set arr = set (countTo (tileCnt this))) \<and>
     list_all (\<lambda>(t, vt). t < length (tiles this) \<and> vt < length (tiles this)) (moving this)"

definition allAtOrigin :: "spgame \<Rightarrow> bool" where
  "allAtOrigin this \<longleftrightarrow> list_all (\<lambda>x. gridCurrent x = gridOrigin x) (tiles this)"

text \<open>The game with the \<open>alive\<close> flag of the void tile set to \<open>b\<close>.\<close>

definition setVoidAlive :: "bool \<Rightarrow> spgame \<Rightarrow> spgame" where
  "setVoidAlive b this =
     this\<lparr>tiles := (tiles this)[nat \<lfloor>tileCnt this - 1\<rfloor> :=
                       (tiles this ! nat \<lfloor>tileCnt this - 1\<rfloor>)\<lparr>alive := b\<rparr>]\<rparr>"

text \<open>What \<open>checkAndFinish\<close> tests: the void tile, then the tiles before the last two.\<close>

definition completed :: "spgame \<Rightarrow> bool" where
  "completed this \<longleftrightarrow>
     checkTilePosition (tiles this ! nat \<lfloor>tileCnt this - 1\<rfloor>) \<and>
     list_all checkTilePosition (take (nat \<lfloor>tileCnt this - 2\<rfloor>) (tiles this))"

text \<open>The tiles after the callback of an animation has exchanged two current positions.\<close>

definition swapCurrent :: "sptile list \<Rightarrow> nat \<Rightarrow> nat \<Rightarrow> sptile list" where
  "swapCurrent ts t vt =
     (let ts1 = ts[t := (ts ! t)\<lparr>gridCurrent := gridCurrent (ts ! vt)\<rparr>]
      in ts1[vt := (ts1 ! vt)\<lparr>gridCurrent := gridCurrent (ts ! t)\<rparr>])"

text \<open>
  The game right after a start with the arrangement \<open>arr\<close>: the start action invoked, the
  void tile taken from the engine, every tile on the cell of its place in \<open>arr\<close>.
\<close>

definition started :: "spgame \<Rightarrow> int list \<Rightarrow> spgame" where
  "started this arr =
     (setVoidAlive False (this\<lparr>invoked := invoked this @ [Start]\<rparr>))
       \<lparr>tiles := map (\<lambda>x. x\<lparr>gridCurrent := toGrid (puzzleShape this) (indexOf arr (index x))\<rparr>)
                   (tiles (setVoidAlive False (this\<lparr>invoked := invoked this @ [Start]\<rparr>))),
        isRunning := True\<rparr>"

text \<open>
  The \<open>m\<close>-th array that the loop of \<open>getShuffleArray\<close> tests; every round draws one
  random number less than there are tiles.
\<close>

definition attempt :: "rat \<Rightarrow> (nat \<Rightarrow> nat \<Rightarrow> nat) \<Rightarrow> nat \<Rightarrow> int list" where
  "attempt cnt random m = fst (shuffle random (m * (length (countTo cnt) - 1)) (countTo cnt))"

fun isReShuffle :: "event \<Rightarrow> bool" where
  "isReShuffle (ReShuffle arr) = True"
| "isReShuffle ev = False"

text \<open>
  A running example: the 2 by 2 puzzle constructed with \<open>startShuffle\<close>, when every draw
  of \<open>shuffle\<close> is position 0 (\<open>Math.random()\<close> returning 0 every time).
\<close>

definition alwaysFirst :: "nat \<Rightarrow> nat \<Rightarrow> nat" where
  "alwaysFirst k n = 0"

definition exampleSetup :: spsetup where
  "exampleSetup = \<lparr>setupShape = Vector2 2 2, setupDistance = Vector2 1 1,
     setupAddToEngine = None, setupStartShuffle = Some True, setupFixedShuffle = None\<rparr>"

definition exampleGame :: spgame where
  "exampleGame =
     \<lparr>tiles =
        [\<lparr>index = 0, gridOrigin = Vector2 0 0, gridCurrent = Vector2 1 1, alive = True\<rparr>,
         \<lparr>index = 1, gridOrigin = Vector2 0 1, gridCurrent = Vector2 0 0, alive = True\<rparr>,
         \<lparr>index = 2, gridOrigin = Vector2 1 0, gridCurrent = Vector2 0 1, alive = True\<rparr>,
         \<lparr>index = 3, gridOrigin = Vector2 1 1, gridCurrent = Vector2 1 0, alive = True\<rparr>],
      isRunning = True, lockedInput = False, puzzleShape = Vector2 2 2, tileCnt = 4,
      fixedShuffleArr = None, invoked = [Start], moving = []\<rparr>"

text \<open>
  The puzzle that the constructor builds from the shape (2.5, 2.5): seven tiles for a tile
  count of 6.25.
\<close>

definition fractionalSetup :: spsetup where
  "fractionalSetup = \<lparr>setupShape = Vector2 (5 / 2) (5 / 2), setupDistance = Vector2 1 1,
     setupAddToEngine = None, setupStartShuffle = None, setupFixedShuffle = None\<rparr>"

definition fractionalGame :: spgame where
  "fractionalGame =
     \<lparr>tiles =
        [\<lparr>index = 0, gridOrigin = Vector2 0 0, gridCurrent = Vector2 0 0, alive = True\<rparr>,
         \<lparr>index = 1, gridOrigin = Vector2 0 1, gridCurrent = Vector2 0 1, alive = True\<rparr>,
         \<lparr>index = 2, gridOrigin = Vector2 0 2, gridCurrent = Vector2 0 2, alive = True\<rparr>,
         \<lparr>index = 3, gridOrigin = Vector2 1 (1 / 2), gridCurrent = Vector2 1 (1 / 2),
            alive = True\<rparr>,
         \<lparr>index = 4, gridOrigin = Vector2 1 (3 / 2), gridCurrent = Vector2 1 (3 / 2),
            alive = True\<rparr>,
         \<lparr>index = 5, gridOrigin = Vector2 2 0, gridCurrent = Vector2 2 0, alive = True\<rparr>,
         \<lparr>index = 6, gridOrigin = Vector2 2 1, gridCurrent = Vector2 2 1, alive = True\<rparr>],
      isRunning = False, lockedInput = False, puzzleShape = Vector2 (5 / 2) (5 / 2),
      tileCnt = 25 / 4, fixedShuffleArr = None, invoked = [], moving = []\<rparr>"

text \<open>
  The object on which the constructor calls \<open>setfixedShuffleArr\<close> for the shape
  65536 by 65536, whose tile count is \<open>2^32\<close>.
\<close>

definition hugeSetup :: spsetup where
  "hugeSetup = \<lparr>setupShape = Vector2 65536 65536, setupDistance = Vector2 1 1,
     setupAddToEngine = None, setupStartShuffle = None, setupFixedShuffle = Some [1, 0]\<rparr>"

definition hugeGame :: spgame where
  "hugeGame =
     \<lparr>tiles = [], isRunning = False, lockedInput = False, puzzleShape = Vector2 65536 65536,
      tileCnt = 4294967296, fixedShuffleArr = None, invoked = [], moving = []\<rparr>"


section \<open>Integers among the numbers\<close>

lemma isInteger_of_int [simp]: "isInteger (of_int n)"
  by (simp add: isInteger_def)

lemma isInteger_of_nat [simp]: "isInteger (of_nat n)"
  using isInteger_of_int [of "int n"] by simp

lemma isInteger_numeral [simp]: "isInteger (numeral w)"
  using isInteger_of_int [of "numeral w"] by simp

lemma isInteger_cases: "isInteger q \<Longrightarrow> (\<And>n. q = of_int n \<Longrightarrow> P) \<Longrightarrow> P"
  unfolding isInteger_def by blast

lemma truncated_of_int [simp]: "truncated (of_int n) = n"
  by (simp add: truncated_def)

lemma floor_div_of_int: "\<lfloor>(of_int n :: rat) / of_int y\<rfloor> = n div y"
  by (rule floor_divide_of_int_eq)

lemma remainder_of_int:
  assumes "0 \<le> n" "0 < y"
  shows "remainder (of_int n) (of_int y) = of_int (n mod y)"
proof -
  have "0 \<le> (of_int n :: rat) / of_int y"
    using assms by simp
  then have "truncated (of_int n / of_int y) = n div y"
    by (simp add: truncated_def floor_div_of_int)
  then have "remainder (of_int n) (of_int y) = of_int (n - y * (n div y))"
    by (simp add: remainder_def)
  also have "n - y * (n div y) = n mod y"
    by (simp add: minus_mult_div_eq_mod)
  finally show ?thesis .
qed


lemma countTo_of_int [simp]: "countTo (of_int n) = [0 .. n - 1]"
  by (simp add: countTo_def)

lemma countTo_numeral [simp]: "countTo (numeral w) = [0 .. numeral w - 1]"
  using countTo_of_int [of "numeral w"] by simp

lemma arrayLength_of_int: "arrayLength (of_int n) \<longleftrightarrow> 0 \<le> n \<and> n \<le> 4294967295"
proof -
  have "(of_int n :: rat) \<le> 4294967295 \<longleftrightarrow> (of_int n :: rat) \<le> of_int 4294967295"
    by simp
  also have "\<dots> \<longleftrightarrow> n \<le> 4294967295"
    by (simp only: of_int_le_iff)
  finally show ?thesis by (simp add: arrayLength_def)
qed

section \<open>The solvability proof counts inversions\<close>

lemma indexOf_ge: "- 1 \<le> indexOf xs v"
  by (induction xs) (auto simp: Let_def)

lemma indexOf_notmem: "v \<notin> set xs \<Longrightarrow> indexOf xs v = - 1"
  by (induction xs) (auto simp: Let_def)












lemma div_less_rows:
  fixes i :: int
  assumes "0 \<le> i" "i < r * c" "0 < c"
  shows "i div c < r"
proof (rule ccontr)
  assume "\<not> i div c < r"
  then have "r \<le> i div c" by simp
  then have "r * c \<le> (i div c) * c"
    using assms(3) by (simp add: mult_right_mono)
  also have "\<dots> \<le> i"
    using assms(3) div_mult_mod_eq [of i c] pos_mod_sign [of c i] by linarith
  finally show False using assms(2) by simp
qed



section \<open>The running example\<close>

lemma example_constructed: "init exampleSetup (\<lambda>k n. 0) = Some (Inr exampleGame)"
  by code_simp

lemma example_wellFormed: "wellFormed exampleGame"
  by code_simp

section \<open>Clicks, moves and resolve\<close>

lemma void_position:
  "of_nat (length ts) = q \<Longrightarrow> nat \<lfloor>q - 1\<rfloor> = length ts - 1"
  "of_nat (length ts) = q \<Longrightarrow> nat \<lfloor>q - 2\<rfloor> = length ts - 2"
  "of_nat (length ts) = q \<Longrightarrow> truncated (q - 2) = int (length ts) - 2"
proof -
  assume q: "of_nat (length ts) = q"
  have a: "q - 1 = of_int (int (length ts) - 1)" "q - 2 = of_int (int (length ts) - 2)"
    using q by auto
  show "nat \<lfloor>q - 1\<rfloor> = length ts - 1" "nat \<lfloor>q - 2\<rfloor> = length ts - 2"
    "truncated (q - 2) = int (length ts) - 2"
    unfolding a by (simp_all only: floor_of_int truncated_of_int)
qed

lemma tileAt_nat: "t < length ts \<Longrightarrow> tileAt ts (of_nat t) = Some (ts ! t)"
  by (simp add: tileAt_def)

lemma tileAt_void:
  assumes "0 < tileCnt this" "of_nat (length (tiles this)) = tileCnt this"
  shows "tileAt (tiles this) (tileCnt this - 1) = Some (tiles this ! nat \<lfloor>tileCnt this - 1\<rfloor>)"
proof -
  from assms have pos: "0 < length (tiles this)" by (cases "length (tiles this)") auto
  then obtain m where m: "length (tiles this) = Suc m"
    by (cases "length (tiles this)") auto
  have "tileCnt this - 1 = of_nat (length (tiles this) - 1)"
    using assms(2) unfolding m by auto
  moreover have "tileAt (tiles this) (of_nat (length (tiles this) - 1))
       = Some (tiles this ! (length (tiles this) - 1))"
    using pos by (intro tileAt_nat) simp
  ultimately show ?thesis
    by simp
qed

lemma voidTileVisibility_eq:
  assumes "0 < tileCnt this" "of_nat (length (tiles this)) = tileCnt this"
  shows "voidTileVisibility b this = Inr (setVoidAlive b this)"
proof -
  let ?v = "nat \<lfloor>tileCnt this - 1\<rfloor>"
  have same: "setVoidAlive b this = this" if "alive (tiles this ! ?v) = b"
  proof -
    have "(tiles this ! ?v)\<lparr>alive := b\<rparr> = tiles this ! ?v"
      using that by (cases "tiles this ! ?v") auto
    then show ?thesis by (simp add: setVoidAlive_def)
  qed
  show ?thesis
  proof (cases "alive (tiles this ! ?v) = b")
    case True
    then show ?thesis
      using same by (cases b) (simp_all add: voidTileVisibility_def tileAt_void [OF assms])
  next
    case False
    then show ?thesis
      by (cases b) (simp_all add: voidTileVisibility_def tileAt_void [OF assms] setVoidAlive_def)
  qed
qed

lemma wellFormed_size:
  assumes "wellFormed this"
  shows "4 \<le> tileCnt this \<and> of_nat (length (tiles this)) = tileCnt this"
proof -
  from assms have "2 \<le> vx (puzzleShape this)" "2 \<le> vy (puzzleShape this)"
    and ix: "isInteger (vx (puzzleShape this))" and iy: "isInteger (vy (puzzleShape this))"
    and cnt: "tileCnt this = vx (puzzleShape this) * vy (puzzleShape this)"
    and idx: "map index (tiles this) = countTo (tileCnt this)"
    by (simp_all add: wellFormed_def)
  from this(1,2) have "2 * 2 \<le> vx (puzzleShape this) * vy (puzzleShape this)"
    by (intro mult_mono) simp_all
  then have four: "4 \<le> tileCnt this" using cnt by simp
  from ix iy obtain X Y where "vx (puzzleShape this) = of_int X" "vy (puzzleShape this) = of_int Y"
    by (elim isInteger_cases)
  then have c: "tileCnt this = of_int (X * Y)" using cnt by simp
  have "length (tiles this) = length (countTo (tileCnt this))"
    using arg_cong [OF idx, of length] by simp
  then have "length (tiles this) = nat (X * Y)"
    by (simp only: c countTo_of_int length_upto)
  moreover have "0 \<le> X * Y"
    using four unfolding c by (simp only: of_int_0_le_iff [symmetric, where ?'a = rat])
  ultimately have "(of_nat (length (tiles this)) :: rat) = of_int (X * Y)"
    by (simp only: of_nat_nat [symmetric])
  then show ?thesis using four c by simp
qed

lemma wellFormed_void:
  assumes "wellFormed this"
  shows "nat \<lfloor>tileCnt this - 1\<rfloor> = length (tiles this) - 1" "4 \<le> length (tiles this)"
proof -
  from wellFormed_size [OF assms]
  have sz: "4 \<le> tileCnt this" "of_nat (length (tiles this)) = tileCnt this" by simp_all
  show "nat \<lfloor>tileCnt this - 1\<rfloor> = length (tiles this) - 1"
    using void_position(1) [OF sz(2)] .
  have "(of_nat 4 :: rat) \<le> of_nat (length (tiles this))"
    using sz by simp
  then show "4 \<le> length (tiles this)"
    by (simp only: of_nat_le_iff)
qed

text \<open>
  C7. In a running game with unlocked input, a click on a tile whose squared distance to
  the void tile is not 1 invokes \<open>willStall\<close> and changes nothing else: the tiles, the
  game state, the input lock and the pending animations stay as they are.
\<close>

theorem gamePlay_stall:
  assumes "wellFormed this" "isRunning this" "\<not> lockedInput this" "t < length (tiles this)"
    and "lengthSquared (subtract (gridCurrent (tiles this ! nat \<lfloor>tileCnt this - 1\<rfloor>))
                                 (gridCurrent (tiles this ! t))) \<noteq> 1"
  shows "gamePlay this (Some t) random = Some (Inr (this\<lparr>invoked := invoked this @ [WillStall]\<rparr>))"
proof -
  from wellFormed_size [OF assms(1)]
  have sz: "0 < tileCnt this" "of_nat (length (tiles this)) = tileCnt this" by simp_all
  show ?thesis
    using assms(2,3,5)
    by (simp add: gamePlay_def tileAt_void [OF sz] tileAt_nat [OF assms(4)])
qed

theorem gamePlay_stall_witness:
  "gamePlay exampleGame (Some 2) (\<lambda>k n. 0)
   = Some (Inr (exampleGame\<lparr>invoked := [Start, WillStall]\<rparr>))"
proof -
  have wf: "wellFormed exampleGame" by code_simp
  have h: "isRunning exampleGame" "\<not> lockedInput exampleGame" "2 < length (tiles exampleGame)"
    "lengthSquared (subtract (gridCurrent (tiles exampleGame ! nat \<lfloor>tileCnt exampleGame - 1\<rfloor>))
                             (gridCurrent (tiles exampleGame ! 2))) \<noteq> 1"
    by (simp_all add: exampleGame_def lengthSquared_def subtract_def)
  show ?thesis
    using gamePlay_stall [OF wf h, of "\<lambda>k n. 0"] by (simp add: exampleGame_def)
qed

lemma setVoidAlive_fields [simp]:
  "isRunning (setVoidAlive b s) = isRunning s"
  "lockedInput (setVoidAlive b s) = lockedInput s"
  "puzzleShape (setVoidAlive b s) = puzzleShape s"
  "tileCnt (setVoidAlive b s) = tileCnt s"
  "fixedShuffleArr (setVoidAlive b s) = fixedShuffleArr s"
  "invoked (setVoidAlive b s) = invoked s"
  "moving (setVoidAlive b s) = moving s"
  "length (tiles (setVoidAlive b s)) = length (tiles s)"
  by (simp_all add: setVoidAlive_def)

lemma setVoidAlive_tile:
  "n < length (tiles s) \<Longrightarrow>
   index (tiles (setVoidAlive b s) ! n) = index (tiles s ! n) \<and>
   gridOrigin (tiles (setVoidAlive b s) ! n) = gridOrigin (tiles s ! n) \<and>
   gridCurrent (tiles (setVoidAlive b s) ! n) = gridCurrent (tiles s ! n)"
  by (cases "n = nat \<lfloor>tileCnt s - 1\<rfloor>") (simp_all add: setVoidAlive_def)

lemma setVoidAlive_other:
  "n < length (tiles s) \<Longrightarrow> n \<noteq> nat \<lfloor>tileCnt s - 1\<rfloor> \<Longrightarrow>
   tiles (setVoidAlive b s) ! n = tiles s ! n"
  by (simp add: setVoidAlive_def)

lemma setVoidAlive_gridCurrent [simp]:
  "map gridCurrent (tiles (setVoidAlive b s)) = map gridCurrent (tiles s)"
  by (rule nth_equalityI) (simp_all add: setVoidAlive_tile)

lemma setVoidAlive_gridOrigin [simp]:
  "map gridOrigin (tiles (setVoidAlive b s)) = map gridOrigin (tiles s)"
  by (rule nth_equalityI) (simp_all add: setVoidAlive_tile)

lemma setVoidAlive_index [simp]:
  "map index (tiles (setVoidAlive b s)) = map index (tiles s)"
  by (rule nth_equalityI) (simp_all add: setVoidAlive_tile)

lemma setVoidAlive_alive:
  assumes "0 < tileCnt s" "of_nat (length (tiles s)) = tileCnt s"
  shows "alive (tiles (setVoidAlive b s) ! nat \<lfloor>tileCnt s - 1\<rfloor>) = b"
proof -
  from assms have "0 < length (tiles s)" by (cases "length (tiles s)") auto
  then have "nat \<lfloor>tileCnt s - 1\<rfloor> < length (tiles s)"
    unfolding void_position(1) [OF assms(2)] by simp
  then show ?thesis by (simp add: setVoidAlive_def)
qed

lemma checkAndFinish_eq:
  assumes "2 \<le> tileCnt this" "of_nat (length (tiles this)) = tileCnt this"
  shows "checkAndFinish this =
     (if completed this
      then Inr (True, (setVoidAlive True (this\<lparr>invoked := invoked this @ [Finish]\<rparr>))\<lparr>isRunning := False\<rparr>)
      else Inr (False, this))"
proof -
  have sz: "0 < tileCnt this" using assms(1) by simp
  have vis: "voidTileVisibility True (this\<lparr>invoked := invoked this @ [Finish]\<rparr>)
             = Inr (setVoidAlive True (this\<lparr>invoked := invoked this @ [Finish]\<rparr>))"
    using sz assms(2) by (intro voidTileVisibility_eq) simp_all
  have "(of_nat 2 :: rat) \<le> of_nat (length (tiles this))"
    using assms by simp
  then have two: "2 \<le> length (tiles this)"
    by (simp only: of_nat_le_iff)
  have sl: "slice0 (tiles this) (truncated (tileCnt this - 2))
            = take (nat \<lfloor>tileCnt this - 2\<rfloor>) (tiles this)"
    unfolding void_position(2,3) [OF assms(2)] using two by (simp add: slice0_def nat_diff_distrib)
  have la: "list_all (\<lambda>x. x) (map checkTilePosition xs) = list_all checkTilePosition xs" for xs
    by (induction xs) simp_all
  show ?thesis
    by (simp add: checkAndFinish_def tileAt_void [OF sz assms(2)] Let_def sl la vis completed_def)
qed

lemma checkTilePosition_iff: "checkTilePosition x \<longleftrightarrow> gridCurrent x = gridOrigin x"
  by (auto simp: checkTilePosition_def intro: vector2.expand)

lemma wellFormed_countTo:
  assumes "wellFormed this"
  shows "countTo (tileCnt this) = [0 .. int (length (tiles this)) - 1]"
proof -
  from wellFormed_size [OF assms]
  have "tileCnt this = of_int (int (length (tiles this)))" by simp
  then show ?thesis by (simp only: countTo_of_int)
qed

lemma wellFormed_tile:
  assumes "wellFormed this" "n < length (tiles this)"
  shows "index (tiles this ! n) = int n"
    and "gridOrigin (tiles this ! n) = toGrid (puzzleShape this) (int n)"
proof -
  let ?L = "int (length (tiles this))"
  from assms(2)
  have n: "0 + int n \<le> ?L - 1" "n < length [0 .. ?L - 1]"
    by simp_all
  from assms(1) have idx: "map index (tiles this) = [0 .. ?L - 1]"
    and org: "map gridOrigin (tiles this)
              = map (toGrid (puzzleShape this)) [0 .. ?L - 1]"
    by (simp_all add: wellFormed_def wellFormed_countTo [OF assms(1), symmetric])
  show "index (tiles this ! n) = int n"
    using arg_cong [OF idx, of "\<lambda>xs. xs ! n"] assms(2) nth_upto [OF n(1)] by simp
  show "gridOrigin (tiles this ! n) = toGrid (puzzleShape this) (int n)"
    using arg_cong [OF org, of "\<lambda>xs. xs ! n"] assms(2) n(2) nth_upto [OF n(1)] by simp
qed

lemma allAtOrigin_iff:
  "allAtOrigin this \<longleftrightarrow> map gridCurrent (tiles this) = map gridOrigin (tiles this)"
  by (simp add: allAtOrigin_def list_all_iff)

lemma allAtOrigin_completed:
  assumes "allAtOrigin this" "0 < tileCnt this" "of_nat (length (tiles this)) = tileCnt this"
  shows "completed this"
proof -
  have all: "\<forall>x \<in> set (tiles this). checkTilePosition x"
    using assms(1) by (simp add: allAtOrigin_def list_all_iff checkTilePosition_iff)
  from assms(2,3) have "0 < length (tiles this)" by (cases "length (tiles this)") auto
  then have "nat \<lfloor>tileCnt this - 1\<rfloor> < length (tiles this)"
    unfolding void_position(1) [OF assms(3)] by simp
  then have "tiles this ! nat \<lfloor>tileCnt this - 1\<rfloor> \<in> set (tiles this)"
    by (rule nth_mem)
  moreover have "set (take (nat \<lfloor>tileCnt this - 2\<rfloor>) (tiles this)) \<subseteq> set (tiles this)"
    by (rule set_take_subset)
  ultimately show ?thesis
    using all by (auto simp: completed_def list_all_iff)
qed

lemma resolve_eq:
  assumes "wellFormed this"
  shows "resolve this =
     Inr (setVoidAlive True
            (this\<lparr>isRunning := False,
                  tiles := map (\<lambda>x. repositionTile (this\<lparr>isRunning := False\<rparr>) x (index x))
                             (tiles this)\<rparr>))"
proof -
  from wellFormed_size [OF assms]
  have sz: "0 < tileCnt this" "of_nat (length (tiles this)) = tileCnt this" by simp_all
  show ?thesis
    using sz by (simp add: resolve_def Let_def voidTileVisibility_eq)
qed

text \<open>
  C8. \<open>resolve\<close> returns without an error and puts every tile on its origin position:
  the current position of each tile of the result is the origin position that this tile
  had before the call, and indices, origin positions, the number of tiles, the shape and
  the tile count are those of before. The void tile is back in the engine and no other
  tile has entered or left it, the game is not running, no action was invoked by the call,
  the input lock, the stored fixed shuffle and the pending animations are untouched, and a
  completion check on the result reports completion.
\<close>

theorem resolve_restores_origin:
  assumes "wellFormed this"
  shows "\<exists>s. resolve this = Inr s \<and> allAtOrigin s
             \<and> length (tiles s) = length (tiles this)
             \<and> (\<forall>n < length (tiles this).
                    gridCurrent (tiles s ! n) = gridOrigin (tiles this ! n)
                  \<and> gridOrigin (tiles s ! n) = gridOrigin (tiles this ! n)
                  \<and> index (tiles s ! n) = index (tiles this ! n)
                  \<and> (n \<noteq> nat \<lfloor>tileCnt this - 1\<rfloor> \<longrightarrow>
                       alive (tiles s ! n) = alive (tiles this ! n)))
             \<and> alive (tiles s ! nat \<lfloor>tileCnt this - 1\<rfloor>)
             \<and> \<not> isRunning s \<and> invoked s = invoked this
             \<and> puzzleShape s = puzzleShape this \<and> tileCnt s = tileCnt this
             \<and> lockedInput s = lockedInput this
             \<and> fixedShuffleArr s = fixedShuffleArr this \<and> moving s = moving this
             \<and> (\<exists>s'. checkAndFinish s = Inr (True, s'))"
proof -
  from wellFormed_size [OF assms]
  have sz: "4 \<le> tileCnt this" "of_nat (length (tiles this)) = tileCnt this" by simp_all
  define s2 where "s2 = this\<lparr>isRunning := False,
                  tiles := map (\<lambda>x. repositionTile (this\<lparr>isRunning := False\<rparr>) x (index x))
                             (tiles this)\<rparr>"
  let ?s = "setVoidAlive True s2"
  have fields: "length (tiles s2) = length (tiles this)" "tileCnt s2 = tileCnt this"
    "puzzleShape s2 = puzzleShape this" "lockedInput s2 = lockedInput this"
    "fixedShuffleArr s2 = fixedShuffleArr this" "moving s2 = moving this"
    "invoked s2 = invoked this" "\<not> isRunning s2"
    by (simp_all add: s2_def)
  have tile2: "tiles s2 ! n = (tiles this ! n)\<lparr>gridCurrent := gridOrigin (tiles this ! n)\<rparr>"
    if "n < length (tiles this)" for n
    using that
    by (simp add: s2_def repositionTile_def toGrid_def wellFormed_tile [OF assms] Let_def)
  have placed: "map gridCurrent (tiles s2) = map gridOrigin (tiles s2)"
    by (rule nth_equalityI) (simp_all add: fields tile2)
  have origin: "allAtOrigin ?s"
    using placed by (simp add: allAtOrigin_iff)
  have vis: "alive (tiles ?s ! nat \<lfloor>tileCnt this - 1\<rfloor>)"
    using sz setVoidAlive_alive [of s2 True] by (simp add: fields)
  have "completed ?s"
    using sz by (intro allAtOrigin_completed origin) (simp_all add: fields)
  then have fin: "\<exists>s'. checkAndFinish ?s = Inr (True, s')"
    using sz by (subst checkAndFinish_eq) (simp_all add: fields)
  have each: "gridCurrent (tiles ?s ! n) = gridOrigin (tiles this ! n)
                  \<and> gridOrigin (tiles ?s ! n) = gridOrigin (tiles this ! n)
                  \<and> index (tiles ?s ! n) = index (tiles this ! n)
                  \<and> (n \<noteq> nat \<lfloor>tileCnt this - 1\<rfloor> \<longrightarrow>
                       alive (tiles ?s ! n) = alive (tiles this ! n))"
    if n: "n < length (tiles this)" for n
    using setVoidAlive_tile [of n s2 True] setVoidAlive_other [of n s2 True] n
    by (simp add: fields tile2)
  have "resolve this = Inr ?s"
    unfolding resolve_eq [OF assms] s2_def ..
  then show ?thesis
    using origin vis fin each by (intro exI [of _ ?s]) (simp add: fields)
qed

theorem resolve_restores_origin_witness:
  "\<exists>s. resolve exampleGame = Inr s \<and> allAtOrigin s \<and> alive (tiles s ! 3)
       \<and> map gridCurrent (tiles s) = [Vector2 0 0, Vector2 0 1, Vector2 1 0, Vector2 1 1]
       \<and> \<not> isRunning s \<and> invoked s = [Start]
       \<and> (\<exists>s'. checkAndFinish s = Inr (True, s'))"
proof -
  have wf: "wellFormed exampleGame" by code_simp
  have v: "nat \<lfloor>tileCnt exampleGame - 1\<rfloor> = 3" by (simp add: exampleGame_def)
  from resolve_restores_origin [OF wf] obtain s where
    r: "resolve exampleGame = Inr s" and
    p: "allAtOrigin s" "alive (tiles s ! 3)" "\<not> isRunning s"
      "invoked s = invoked exampleGame" "\<exists>s'. checkAndFinish s = Inr (True, s')" and
    l: "length (tiles s) = length (tiles exampleGame)" and
    c: "\<forall>n < length (tiles exampleGame).
          gridCurrent (tiles s ! n) = gridOrigin (tiles exampleGame ! n)"
    unfolding v by blast
  have "map gridCurrent (tiles s) = map gridOrigin (tiles exampleGame)"
    using l c by (intro nth_equalityI) simp_all
  then show ?thesis
    using r p by (intro exI [of _ s]) (simp add: exampleGame_def)
qed

lemma length_swapCurrent [simp]: "length (swapCurrent ts t vt) = length ts"
  by (simp add: swapCurrent_def Let_def)

lemma swapCurrent_nth:
  assumes "t < length ts" "vt < length ts" "n < length ts"
  shows "gridCurrent (swapCurrent ts t vt ! n)
         = (if n = vt then gridCurrent (ts ! t)
            else if n = t then gridCurrent (ts ! vt) else gridCurrent (ts ! n))"
    and "gridOrigin (swapCurrent ts t vt ! n) = gridOrigin (ts ! n)"
    and "index (swapCurrent ts t vt ! n) = index (ts ! n)"
    and "alive (swapCurrent ts t vt ! n) = alive (ts ! n)"
  using assms by (auto simp: swapCurrent_def Let_def nth_list_update)

lemma moveFinished_eq:
  assumes "2 \<le> tileCnt this" "of_nat (length (tiles this)) = tileCnt this"
  shows "moveFinished this (t, vt) =
     (let s = this\<lparr>tiles := swapCurrent (tiles this) t vt,
                    moving := remove1 (t, vt) (moving this)\<rparr>
      in if completed s
         then Inr ((setVoidAlive True (s\<lparr>invoked := invoked s @ [Finish]\<rparr>))
                     \<lparr>isRunning := False, lockedInput := False\<rparr>)
         else Inr (s\<lparr>lockedInput := False\<rparr>))"
proof -
  let ?s = "this\<lparr>tiles := swapCurrent (tiles this) t vt,
                    moving := remove1 (t, vt) (moving this)\<rparr>"
  have "checkAndFinish ?s =
     (if completed ?s
      then Inr (True, (setVoidAlive True (?s\<lparr>invoked := invoked ?s @ [Finish]\<rparr>))\<lparr>isRunning := False\<rparr>)
      else Inr (False, ?s))"
    using assms by (intro checkAndFinish_eq) simp_all
  then show ?thesis
    by (simp add: moveFinished.simps Let_def swapCurrent_def)
qed

lemma lengthSquared_distinct:
  "lengthSquared (subtract a b) = 1 \<Longrightarrow> a \<noteq> b"
  by (auto simp: lengthSquared_def subtract_def)

text \<open>
  C6. In a running game with unlocked input, a click on a tile at squared distance 1 from
  the void tile invokes \<open>willMove\<close>, locks the input and starts the animation; when the
  callback of the animation has run, the clicked tile has the void tile's former position
  and the void tile the clicked tile's, every other tile is where it was, and the input is
  unlocked.
\<close>

theorem gamePlay_move_swaps:
  assumes "wellFormed this" "isRunning this" "\<not> lockedInput this" "t < length (tiles this)"
    and "lengthSquared (subtract (gridCurrent (tiles this ! nat \<lfloor>tileCnt this - 1\<rfloor>))
                                 (gridCurrent (tiles this ! t))) = 1"
  shows "\<exists>s s'. gamePlay this (Some t) random = Some (Inr s)
           \<and> invoked s = invoked this @ [WillMove] \<and> lockedInput s
           \<and> tiles s = tiles this
           \<and> moving s = moving this @ [(t, nat \<lfloor>tileCnt this - 1\<rfloor>)]
           \<and> moveFinished s (t, nat \<lfloor>tileCnt this - 1\<rfloor>) = Inr s'
           \<and> gridCurrent (tiles s' ! t) = gridCurrent (tiles this ! nat \<lfloor>tileCnt this - 1\<rfloor>)
           \<and> gridCurrent (tiles s' ! nat \<lfloor>tileCnt this - 1\<rfloor>) = gridCurrent (tiles this ! t)
           \<and> (\<forall>n < length (tiles this). n \<noteq> t \<longrightarrow> n \<noteq> nat \<lfloor>tileCnt this - 1\<rfloor> \<longrightarrow>
                  gridCurrent (tiles s' ! n) = gridCurrent (tiles this ! n))
           \<and> \<not> lockedInput s'"
proof -
  let ?v = "nat \<lfloor>tileCnt this - 1\<rfloor>"
  from wellFormed_size [OF assms(1)]
  have sz: "4 \<le> tileCnt this" "of_nat (length (tiles this)) = tileCnt this" by simp_all
  have v: "?v < length (tiles this)"
    using wellFormed_void [OF assms(1)] by simp
  have tv: "t \<noteq> ?v"
    using lengthSquared_distinct [OF assms(5)] by auto
  let ?s = "gameTurn (this\<lparr>invoked := invoked this @ [WillMove]\<rparr>) t ?v"
  have play: "gamePlay this (Some t) random = Some (Inr ?s)"
    using assms(2,3,5) sz
    by (simp add: gamePlay_def tileAt_void tileAt_nat [OF assms(4)])
  have fields: "invoked ?s = invoked this @ [WillMove]" "lockedInput ?s" "tiles ?s = tiles this"
    "moving ?s = moving this @ [(t, ?v)]" "tileCnt ?s = tileCnt this"
    by (simp_all add: gameTurn_def)
  have sz': "2 \<le> tileCnt ?s" "of_nat (length (tiles ?s)) = tileCnt ?s"
    using sz fields by simp_all
  obtain s' where fin: "moveFinished ?s (t, ?v) = Inr s'"
    and cur: "map gridCurrent (tiles s') = map gridCurrent (swapCurrent (tiles this) t ?v)"
    and unl: "\<not> lockedInput s'"
    unfolding moveFinished_eq [OF sz'] Let_def fields
    by (cases "completed (?s\<lparr>tiles := swapCurrent (tiles this) t ?v,
                 moving := remove1 (t, ?v) (moving this @ [(t, ?v)])\<rparr>)") simp_all
  have len: "length (tiles s') = length (tiles this)"
    using arg_cong [OF cur, of length] by simp
  have nth: "gridCurrent (tiles s' ! n) = gridCurrent (swapCurrent (tiles this) t ?v ! n)"
    if "n < length (tiles this)" for n
    using arg_cong [OF cur, of "\<lambda>xs. xs ! n"] that len by simp
  show ?thesis
    using play fields fin unl tv v assms(4)
    by (intro exI [of _ ?s] exI [of _ s']) (simp add: nth swapCurrent_nth)
qed

theorem gamePlay_move_swaps_witness:
  "\<exists>s s'. gamePlay exampleGame (Some 0) (\<lambda>k n. 0) = Some (Inr s)
      \<and> invoked s = [Start, WillMove] \<and> lockedInput s
      \<and> moveFinished s (0, 3) = Inr s'
      \<and> gridCurrent (tiles s' ! 0) = Vector2 1 0
      \<and> gridCurrent (tiles s' ! 3) = Vector2 1 1
      \<and> \<not> lockedInput s'"
proof -
  have wf: "wellFormed exampleGame" by code_simp
  have h: "isRunning exampleGame" "\<not> lockedInput exampleGame" "0 < length (tiles exampleGame)"
    "lengthSquared (subtract (gridCurrent (tiles exampleGame ! nat \<lfloor>tileCnt exampleGame - 1\<rfloor>))
                             (gridCurrent (tiles exampleGame ! 0))) = 1"
    by (simp_all add: exampleGame_def lengthSquared_def subtract_def)
  have v: "nat \<lfloor>tileCnt exampleGame - 1\<rfloor> = 3" by (simp add: exampleGame_def)
  from gamePlay_move_swaps [OF wf h, of "\<lambda>k n. 0"] obtain s s' where
    "gamePlay exampleGame (Some 0) (\<lambda>k n. 0) = Some (Inr s)"
    "invoked s = invoked exampleGame @ [WillMove]" "lockedInput s"
    "moveFinished s (0, 3) = Inr s'"
    "gridCurrent (tiles s' ! 0) = gridCurrent (tiles exampleGame ! 3)"
    "gridCurrent (tiles s' ! 3) = gridCurrent (tiles exampleGame ! 0)"
    "\<not> lockedInput s'"
    unfolding v by blast
  then show ?thesis
    by (intro exI [of _ s] exI [of _ s']) (simp add: exampleGame_def)
qed

section \<open>The shape test of the constructor\<close>

lemma shapeCheck_integers:
  "shapeCheck (Vector2 (of_int a) (of_int b))
   = (if a < 2 \<or> b < 2 then Some ShapeFaulty else None)"
proof -
  have "remainder (of_int a + of_int b) 1 = 0"
    by (simp add: remainder_def truncated_def flip: of_int_add)
  moreover have "(of_int a :: rat) < 2 \<longleftrightarrow> a < 2" "(of_int b :: rat) < 2 \<longleftrightarrow> b < 2"
    by linarith+
  ultimately show ?thesis by (simp add: shapeCheck_def)
qed

text \<open>
  C4. The claim is that construction throws the invalid-shape error exactly when a component
  of the puzzle shape is not an integer or is below 2. The source tests whether the sum of
  the two components is an integer; the shape (2.5, 2.5) passes both tests of
  \<open>shapeCheck\<close>, so no error is thrown for it.
\<close>

theorem shapeCheck_accepts_fractions: "shapeCheck (Vector2 (5 / 2) (5 / 2)) = None"
  by (simp add: shapeCheck_def remainder_def truncated_def)

section \<open>Rendering arrays is injective\<close>

lemma digitChar_code: "d < 10 \<Longrightarrow> (of_char (digitChar d) :: nat) = 48 + d"
  by (simp add: digitChar_def)

lemma digitChar_inj:
  assumes "d < 10" "e < 10" "digitChar d = digitChar e"
  shows "d = e"
proof -
  have "(of_char (digitChar d) :: nat) = of_char (digitChar e)"
    using assms(3) by (rule arg_cong)
  then show ?thesis
    by (simp only: digitChar_code [OF assms(1)] digitChar_code [OF assms(2)] add_left_cancel)
qed

lemma digitChar_not_comma:
  assumes "d < 10"
  shows "digitChar d \<noteq> CHR '',''"
proof
  assume "digitChar d = CHR '',''"
  then have "(of_char (digitChar d) :: nat) = of_char (CHR '','')"
    by (rule arg_cong)
  then show False
    by (simp only: digitChar_code [OF assms]) simp
qed

lemma digitChar_not_minus:
  assumes "d < 10"
  shows "digitChar d \<noteq> CHR ''-''"
proof
  assume "digitChar d = CHR ''-''"
  then have "(of_char (digitChar d) :: nat) = of_char (CHR ''-'')"
    by (rule arg_cong)
  then show False
    by (simp only: digitChar_code [OF assms]) simp
qed

lemma natToString_nonempty: "natToString n \<noteq> []"
  by (subst natToString.simps) simp

lemma natToString_small: "n < 10 \<Longrightarrow> natToString n = [digitChar n]"
  by (subst natToString.simps) simp

lemma natToString_large:
  "\<not> n < 10 \<Longrightarrow> natToString n = natToString (n div 10) @ [digitChar (n mod 10)]"
  by (subst natToString.simps) simp

lemma natToString_chars: "c \<in> set (natToString n) \<Longrightarrow> \<exists>d < 10. c = digitChar d"
proof (induction n rule: natToString.induct)
  case (1 n)
  show ?case
  proof (cases "n < 10")
    case True
    then show ?thesis using "1.prems" by (auto simp: natToString_small)
  next
    case False
    then have "c \<in> set (natToString (n div 10)) \<or> c = digitChar (n mod 10)"
      using "1.prems" by (auto simp: natToString_large)
    then show ?thesis
    proof
      assume "c \<in> set (natToString (n div 10))"
      then show ?thesis using "1.IH" False by simp
    next
      assume "c = digitChar (n mod 10)"
      moreover have "n mod 10 < 10" by simp
      ultimately show ?thesis by blast
    qed
  qed
qed

lemma natToString_inj: "natToString n = natToString m \<Longrightarrow> n = m"
proof (induction n arbitrary: m rule: natToString.induct)
  case (1 n)
  show ?case
  proof (cases "n < 10")
    case True
    show ?thesis
    proof (cases "m < 10")
      case m: True
      then show ?thesis
        using "1.prems" True by (auto simp: natToString_small dest: digitChar_inj)
    next
      case m: False
      then show ?thesis
        using "1.prems" True natToString_nonempty [of "m div 10"]
        by (simp add: natToString_small natToString_large [OF m])
    qed
  next
    case False
    show ?thesis
    proof (cases "m < 10")
      case m: True
      then show ?thesis
        using "1.prems" False natToString_nonempty [of "n div 10"]
        by (simp add: natToString_small natToString_large [OF False])
    next
      case m: False
      from "1.prems" have "natToString (n div 10) = natToString (m div 10)"
        and d: "digitChar (n mod 10) = digitChar (m mod 10)"
        by (simp_all add: natToString_large [OF False] natToString_large [OF m])
      from "1.IH" [OF False this(1)] have "n div 10 = m div 10" .
      moreover from digitChar_inj [OF _ _ d] have "n mod 10 = m mod 10" by simp
      ultimately show ?thesis by (metis div_mult_mod_eq)
    qed
  qed
qed

lemma numberToString_inj: "numberToString i = numberToString j \<Longrightarrow> i = j"
proof -
  assume eq: "numberToString i = numberToString j"
  have hd_digit: "hd (natToString n) \<noteq> CHR ''-''" for n
  proof -
    have "hd (natToString n) \<in> set (natToString n)"
      using natToString_nonempty by simp
    from natToString_chars [OF this] show ?thesis
      using digitChar_not_minus by metis
  qed
  have ne: "natToString n \<noteq> CHR ''-'' # s" for n s
    using hd_digit [of n] by (metis list.sel(1))
  show "i = j"
  proof (cases "i < 0")
    case True
    show ?thesis
    proof (cases "j < 0")
      case j: True
      with True eq have "nat (- i) = nat (- j)"
        by (simp add: numberToString_def natToString_inj)
      with True j show ?thesis by simp
    next
      case j: False
      with True eq ne show ?thesis by (simp add: numberToString_def) metis
    qed
  next
    case False
    show ?thesis
    proof (cases "j < 0")
      case j: True
      with False eq ne show ?thesis by (simp add: numberToString_def)
    next
      case j: False
      with False eq have "nat i = nat j"
        by (simp add: numberToString_def natToString_inj)
      with False j show ?thesis by simp
    qed
  qed
qed

lemma numberToString_atom: "numberToString i \<noteq> [] \<and> CHR '','' \<notin> set (numberToString i)"
proof -
  have "CHR '','' \<notin> set (natToString n)" for n
    using natToString_chars [of "CHR '',''" n] digitChar_not_comma by metis
  then show ?thesis
    by (simp add: numberToString_def natToString_nonempty)
qed

lemma join_atoms_inj:
  assumes "\<forall>s \<in> set xs. s \<noteq> [] \<and> CHR '','' \<notin> set s"
    and "\<forall>s \<in> set ys. s \<noteq> [] \<and> CHR '','' \<notin> set s"
    and "join xs = join ys"
  shows "xs = ys"
  using assms
proof (induction xs arbitrary: ys)
  case Nil
  then show ?case by (cases ys rule: join.cases) auto
next
  case (Cons x xs)
  have nonempty: "join (s # ss) \<noteq> []" if "s \<noteq> []" for s ss
    using that by (cases ss) auto
  have front: "takeWhile (\<lambda>c. c \<noteq> CHR '','') (join (s # ss)) = s"
    if "CHR '','' \<notin> set s" for s ss
    using that by (cases ss) (auto simp: takeWhile_append1 takeWhile_tail)
  have rest: "dropWhile (\<lambda>c. c \<noteq> CHR '','') (join (s # ss))
              = (if ss = [] then [] else CHR '','' # join ss)"
    if "CHR '','' \<notin> set s" for s ss
    using that by (cases ss) (auto simp: dropWhile_append3 dropWhile_append2)
  from Cons.prems obtain y ys' where ys: "ys = y # ys'"
    using nonempty [of x xs] by (cases ys) auto
  have x: "x \<noteq> []" "CHR '','' \<notin> set x" and y: "y \<noteq> []" "CHR '','' \<notin> set y"
    using Cons.prems ys by auto
  have eq: "join (x # xs) = join (y # ys')"
    using Cons.prems(3) ys by simp
  have "takeWhile (\<lambda>c. c \<noteq> CHR '','') (join (x # xs))
        = takeWhile (\<lambda>c. c \<noteq> CHR '','') (join (y # ys'))"
    by (simp only: eq)
  then have "x = y"
    by (simp only: front [OF x(2)] front [OF y(2)])
  moreover have "xs = ys'"
  proof -
    have "dropWhile (\<lambda>c. c \<noteq> CHR '','') (join (x # xs))
          = dropWhile (\<lambda>c. c \<noteq> CHR '','') (join (y # ys'))"
      by (simp only: eq)
    then have tails: "(if xs = [] then [] else CHR '','' # join xs)
                      = (if ys' = [] then [] else CHR '','' # join ys')"
      by (simp only: rest [OF x(2)] rest [OF y(2)])
    show ?thesis
    proof (cases "xs = []")
      case True
      with tails show ?thesis by (cases "ys' = []") simp_all
    next
      case False
      with tails have "join xs = join ys'" by (cases "ys' = []") simp_all
      then show ?thesis using Cons.IH [of ys'] Cons.prems(1,2) ys by simp
    qed
  qed
  ultimately show ?case using ys by simp
qed

lemma toString_inj: "toString xs = toString ys \<longleftrightarrow> xs = ys"
proof
  assume "toString xs = toString ys"
  then have "map numberToString xs = map numberToString ys"
    unfolding toString_def
    by (intro join_atoms_inj) (auto simp: numberToString_atom)
  moreover have "inj numberToString"
    by (rule injI) (rule numberToString_inj)
  ultimately show "xs = ys" by (simp add: inj_map_eq_map)
qed simp

section \<open>Validation of a fixed shuffle\<close>

lemma setfixedShuffleArr_eq:
  "setfixedShuffleArr this arr =
     (if \<not> arrayLength (tileCnt this) then Inl (RangeError, this)
      else if arr = countTo (tileCnt this) then Inl (NotShuffled, this)
      else if sort arr \<noteq> countTo (tileCnt this) then Inl (IndicesMissing, this)
      else if \<not> permutationProof (puzzleShape this) arr then Inl (NotSolvable, this)
      else Inr (this\<lparr>fixedShuffleArr := Some arr\<rparr>))"
  by (simp add: setfixedShuffleArr_def Let_def toString_inj)

text \<open>
  C3, as claimed, fails: the three tests are not all that \<open>setfixedShuffleArr\<close> does. For
  the shape 65536 by 65536 the tile count is \<open>2^32\<close>, and the candidate \<open>[1, 0]\<close>, which is
  not the identity arrangement and whose sorted form is not \<open>0 .. tileCnt - 1\<close>, is not
  rejected with the error of the second test: building the comparison array throws a
  \<open>RangeError\<close> first, in the constructor as well.
\<close>

theorem setfixedShuffleArr_huge_count:
  "setfixedShuffleArr hugeGame [1, 0] = Inl (RangeError, hugeGame)
   \<and> setfixedShuffleArr hugeGame [1, 0] \<noteq> Inl (IndicesMissing, hugeGame)
   \<and> [1, 0] \<noteq> countTo (tileCnt hugeGame)
   \<and> sort [1, 0] \<noteq> countTo (tileCnt hugeGame)
   \<and> init hugeSetup alwaysFirst = Some (Inl RangeError)"
proof -
  have c: "setfixedShuffleArr hugeGame [1, 0] = Inl (RangeError, hugeGame)"
    by (simp add: setfixedShuffleArr_def hugeGame_def arrayLength_def)
  have l: "length [1, 0 :: int] \<noteq> length (countTo (tileCnt hugeGame))"
    "length (sort [1, 0 :: int]) \<noteq> length (countTo (tileCnt hugeGame))"
    by (simp_all add: hugeGame_def)
  have n: "[1, 0] \<noteq> countTo (tileCnt hugeGame)" "sort [1, 0] \<noteq> countTo (tileCnt hugeGame)"
    using l(1) apply metis
    using l(2) apply metis
    done
  have i: "init hugeSetup alwaysFirst = Some (Inl RangeError)"
    by (simp add: init_def hugeSetup_def shapeCheck_def remainder_def truncated_def
        setfixedShuffleArr_def arrayLength_def)
  show ?thesis
    using c n i by simp
qed

text \<open>
  C3, amended. \<open>setfixedShuffleArr\<close> first builds the comparison array, which throws a
  \<open>RangeError\<close> when the tile count is not a length that an array can have. Otherwise it
  makes three tests in order, each with its own error: the candidate equal to the identity
  arrangement, the sorted candidate different from \<open>0 .. tileCnt - 1\<close>, the candidate
  rejected by \<open>permutationProof\<close>. Whenever it throws, the stored fixed shuffle is what
  it was.
\<close>

theorem setfixedShuffleArr_checks:
  "setfixedShuffleArr this arr =
     (if \<not> arrayLength (tileCnt this) then Inl (RangeError, this)
      else if arr = countTo (tileCnt this) then Inl (NotShuffled, this)
      else if sort arr \<noteq> countTo (tileCnt this) then Inl (IndicesMissing, this)
      else if \<not> permutationProof (puzzleShape this) arr then Inl (NotSolvable, this)
      else Inr (this\<lparr>fixedShuffleArr := Some arr\<rparr>))
    \<and> (\<forall>e s. setfixedShuffleArr this arr = Inl (e, s) \<longrightarrow>
           fixedShuffleArr s = fixedShuffleArr this)"
  unfolding setfixedShuffleArr_eq by simp

theorem setfixedShuffleArr_checks_witness:
  "setfixedShuffleArr exampleGame [0, 1, 2, 3] = Inl (NotShuffled, exampleGame) \<and>
   setfixedShuffleArr exampleGame [0, 1, 3, 3] = Inl (IndicesMissing, exampleGame) \<and>
   setfixedShuffleArr exampleGame [1, 0, 2, 3] = Inl (NotSolvable, exampleGame) \<and>
   setfixedShuffleArr exampleGame [1, 2, 3, 0]
     = Inr (exampleGame\<lparr>fixedShuffleArr := Some [1, 2, 3, 0]\<rparr>) \<and>
   setfixedShuffleArr fractionalGame [1, 2, 3, 0] = Inl (RangeError, fractionalGame)"
proof -
  have n: "arrayLength (tileCnt exampleGame)" "\<not> arrayLength (tileCnt fractionalGame)"
    by code_simp+
  have u: "countTo (tileCnt exampleGame) = [0, 1, 2, 3]"
    by (simp add: exampleGame_def upto_rec1)
  have p: "\<not> permutationProof (puzzleShape exampleGame) [1, 0, 2, 3]"
    "permutationProof (puzzleShape exampleGame) [1, 2, 3, 0]"
    by code_simp+
  have s: "sort [0, 1, 3, 3 :: int] = [0, 1, 3, 3]" "sort [1, 0, 2, 3 :: int] = [0, 1, 2, 3]"
    "sort [1, 2, 3, 0 :: int] = [0, 1, 2, 3]"
    by code_simp+
  have a: "setfixedShuffleArr exampleGame [0, 1, 2, 3] = Inl (NotShuffled, exampleGame)"
    using conjunct1 [OF setfixedShuffleArr_checks [of exampleGame "[0, 1, 2, 3]"]] n(1)
    unfolding u by simp
  have b: "setfixedShuffleArr exampleGame [0, 1, 3, 3] = Inl (IndicesMissing, exampleGame)"
    using conjunct1 [OF setfixedShuffleArr_checks [of exampleGame "[0, 1, 3, 3]"]] n(1)
    unfolding u s by simp
  have c: "setfixedShuffleArr exampleGame [1, 0, 2, 3] = Inl (NotSolvable, exampleGame)"
    using conjunct1 [OF setfixedShuffleArr_checks [of exampleGame "[1, 0, 2, 3]"]] p(1) n(1)
    unfolding u s by simp
  have d: "setfixedShuffleArr exampleGame [1, 2, 3, 0]
           = Inr (exampleGame\<lparr>fixedShuffleArr := Some [1, 2, 3, 0]\<rparr>)"
    using conjunct1 [OF setfixedShuffleArr_checks [of exampleGame "[1, 2, 3, 0]"]] p(2) n(1)
    unfolding u s by simp
  have e: "setfixedShuffleArr fractionalGame [1, 2, 3, 0] = Inl (RangeError, fractionalGame)"
    using conjunct1 [OF setfixedShuffleArr_checks [of fractionalGame "[1, 2, 3, 0]"]] n(2)
    by simp
  show ?thesis
    using a b c d e by (intro conjI)
qed

section \<open>Indices and cells\<close>

lemma toGrid_of_int:
  assumes "0 \<le> n" "0 < Y" "vy shape = of_int Y"
  shows "toGrid shape n = Vector2 (of_int (n div Y)) (of_int (n mod Y))"
  unfolding toGrid_def assms(3)
  by (simp only: floor_div_of_int remainder_of_int [OF assms(1,2)])

lemma toGrid_inj:
  assumes "vy shape = of_int Y" "0 < Y" "0 \<le> n" "0 \<le> m" "toGrid shape n = toGrid shape m"
  shows "n = m"
proof -
  from assms(5) have "(of_int (n div Y) :: rat) = of_int (m div Y)"
    "(of_int (n mod Y) :: rat) = of_int (m mod Y)"
    unfolding toGrid_of_int [OF assms(3,2,1)] toGrid_of_int [OF assms(4,2,1)] by simp_all
  then have "n div Y = m div Y" "n mod Y = m mod Y"
    by (simp_all only: of_int_eq_iff)
  then show ?thesis by (metis div_mult_mod_eq)
qed

lemma set_gridCells:
  "c \<in> set (gridCells (Vector2 (of_int X) (of_int Y)))
   \<longleftrightarrow> (\<exists>r k. c = Vector2 (of_int r) (of_int k) \<and> 0 \<le> r \<and> r < X \<and> 0 \<le> k \<and> k < Y)"
proof
  assume "c \<in> set (gridCells (Vector2 (of_int X) (of_int Y)))"
  then obtain r k where "r \<in> set [0 .. X - 1]" "k \<in> set [0 .. Y - 1]"
    "c = Vector2 (of_int r) (of_int k)"
    unfolding gridCells_def vector2.sel countTo_of_int by auto
  then show "\<exists>r k. c = Vector2 (of_int r) (of_int k) \<and> 0 \<le> r \<and> r < X \<and> 0 \<le> k \<and> k < Y"
    by (intro exI [of _ r] exI [of _ k]) simp
next
  assume "\<exists>r k. c = Vector2 (of_int r) (of_int k) \<and> 0 \<le> r \<and> r < X \<and> 0 \<le> k \<and> k < Y"
  then obtain r k where c: "c = Vector2 (of_int r) (of_int k)"
    and b: "0 \<le> r" "r < X" "0 \<le> k" "k < Y"
    by blast
  let ?row = "\<lambda>r. map (\<lambda>c. Vector2 (of_int r :: rat) (of_int c)) [0 .. Y - 1]"
  have "k \<in> set [0 .. Y - 1]" using b by simp
  then have 1: "c \<in> set (?row r)"
    unfolding set_map c by (rule imageI)
  have "r \<in> set [0 .. X - 1]" using b by simp
  then have 2: "?row r \<in> set (map ?row [0 .. X - 1])"
    unfolding set_map by (rule imageI)
  show "c \<in> set (gridCells (Vector2 (of_int X) (of_int Y)))"
    unfolding gridCells_def vector2.sel countTo_of_int set_concat
    using 1 2 by (rule UN_I [rotated])
qed

lemma distinct_toGrid:
  assumes "vy shape = of_int Y" "0 < Y"
  shows "distinct (map (toGrid shape) [0 .. n])"
proof -
  have "inj_on (toGrid shape) (set [0 .. n])"
    by (rule inj_onI) (auto dest: toGrid_inj [OF assms, rotated 2])
  then show ?thesis by (simp add: distinct_map)
qed

lemma set_toGrid:
  assumes "0 < Y" "0 \<le> X"
  shows "set (map (toGrid (Vector2 (of_int X) (of_int Y))) [0 .. X * Y - 1])
         = set (gridCells (Vector2 (of_int X) (of_int Y)))"
proof (intro set_eqI iffI)
  let ?shape = "Vector2 (of_int X :: rat) (of_int Y)"
  have vy: "vy ?shape = of_int Y" by simp
  fix c assume "c \<in> set (map (toGrid ?shape) [0 .. X * Y - 1])"
  then obtain n where n: "0 \<le> n" "n < X * Y" and c: "c = toGrid ?shape n"
    by auto
  have "n div Y < X"
    using n assms(1) by (intro div_less_rows) simp_all
  moreover have "0 \<le> n div Y"
    using n(1) assms(1) by (simp add: pos_imp_zdiv_nonneg_iff)
  moreover have "0 \<le> n mod Y" "n mod Y < Y"
    using assms(1) by simp_all
  ultimately show "c \<in> set (gridCells ?shape)"
    unfolding set_gridCells c toGrid_of_int [OF n(1) assms(1) vy]
    by (intro exI [of _ "n div Y"] exI [of _ "n mod Y"]) simp
next
  let ?shape = "Vector2 (of_int X :: rat) (of_int Y)"
  have vy: "vy ?shape = of_int Y" by simp
  fix c assume "c \<in> set (gridCells ?shape)"
  then obtain r k where c: "c = Vector2 (of_int r) (of_int k)"
    and b: "0 \<le> r" "r < X" "0 \<le> k" "k < Y"
    unfolding set_gridCells by blast
  let ?n = "r * Y + k"
  have nn: "0 \<le> ?n" using b assms(1) by simp
  have "r + 1 \<le> X" using b(2) by simp
  then have "(r + 1) * Y \<le> X * Y"
    using assms(1) by (intro mult_right_mono) simp_all
  then have lt: "?n < X * Y"
    using b(4) by (simp add: algebra_simps)
  have "toGrid ?shape ?n = Vector2 (of_int r) (of_int k)"
    unfolding toGrid_of_int [OF nn assms(1) vy] using b(3,4) assms(1) by simp
  then have "c = toGrid ?shape ?n" unfolding c by simp
  then show "c \<in> set (map (toGrid ?shape) [0 .. X * Y - 1])"
    using nn lt by auto
qed

lemma gridPermutation_iff:
  assumes "isInteger (vx (puzzleShape this))" "isInteger (vy (puzzleShape this))"
    and "0 < vy (puzzleShape this)" "0 \<le> vx (puzzleShape this)"
    and "tileCnt this = vx (puzzleShape this) * vy (puzzleShape this)"
  shows "gridPermutation this \<longleftrightarrow>
         mset (map gridCurrent (tiles this))
         = mset (map (toGrid (puzzleShape this)) (countTo (tileCnt this)))"
proof -
  from assms(1,2) obtain X Y where xy: "vx (puzzleShape this) = of_int X"
    "vy (puzzleShape this) = of_int Y"
    by (elim isInteger_cases)
  then have shape: "puzzleShape this = Vector2 (of_int X) (of_int Y)"
    by (cases "puzzleShape this") simp
  have pos: "0 < Y" "0 \<le> X"
    using assms(3,4) unfolding xy by simp_all
  have cnt: "countTo (tileCnt this) = [0 .. X * Y - 1]"
    unfolding assms(5) xy by (simp only: of_int_mult [symmetric] countTo_of_int)
  let ?g = "map (toGrid (puzzleShape this)) (countTo (tileCnt this))"
  have d: "distinct ?g" unfolding cnt using xy(2) pos(1) by (rule distinct_toGrid)
  have s: "set ?g = set (gridCells (puzzleShape this))"
    unfolding cnt shape using pos by (rule set_toGrid)
  show ?thesis
  proof
    assume "gridPermutation this"
    then have "distinct (map gridCurrent (tiles this))"
      "set (map gridCurrent (tiles this)) = set ?g"
      unfolding s by (simp_all add: gridPermutation_def)
    then show "mset (map gridCurrent (tiles this)) = mset ?g"
      using d by (simp only: set_eq_iff_mset_eq_distinct)
  next
    assume m: "mset (map gridCurrent (tiles this)) = mset ?g"
    from mset_eq_imp_distinct_iff [OF m] d have "distinct (map gridCurrent (tiles this))"
      by simp
    moreover from mset_eq_setD [OF m] have "set (map gridCurrent (tiles this)) = set ?g" .
    ultimately show "gridPermutation this"
      unfolding s [symmetric] gridPermutation_def by simp
  qed
qed

section \<open>Shuffles are permutations\<close>

lemma shuffleFrom_mset:
  assumes "randomInRange random"
  shows "i = 0 \<or> i < length arr \<Longrightarrow> mset (fst (shuffleFrom random k i arr)) = mset arr"
proof (induction i arbitrary: k arr)
  case 0
  then show ?case by simp
next
  case (Suc i)
  then have i: "Suc i < length arr" by simp
  let ?j = "random k (Suc i + 1)"
  have "?j < Suc i + 1"
    using assms unfolding randomInRange_def by simp
  then have j: "?j < length arr"
    using i by simp
  let ?arr = "arr[Suc i := arr ! ?j, ?j := arr ! Suc i]"
  have "mset ?arr = mset arr" using j i by (rule mset_swap)
  moreover have "i = 0 \<or> i < length ?arr" using i by simp
  ultimately show ?case using Suc.IH [of ?arr "Suc k"] by (simp add: Let_def)
qed

lemma shuffleFrom_count: "snd (shuffleFrom random k i arr) = k + i"
  by (induction i arbitrary: k arr) (simp_all add: Let_def)

lemma shuffle_mset:
  "randomInRange random \<Longrightarrow> mset (fst (shuffle random k arr)) = mset arr"
  unfolding shuffle_def by (rule shuffleFrom_mset) auto

lemma shuffle_count: "snd (shuffle random k arr) = k + (length arr - 1)"
  by (simp add: shuffle_def shuffleFrom_count)

lemma distinct_countTo [simp]: "distinct (countTo q)"
  by (simp add: countTo_def)

lemma shuffle_permutation:
  assumes "randomInRange random"
  shows "distinct (fst (shuffle random k (countTo q)))
         \<and> set (fst (shuffle random k (countTo q))) = set (countTo q)"
  using mset_eq_imp_distinct_iff [OF shuffle_mset [OF assms, of k "countTo q"]]
    mset_eq_setD [OF shuffle_mset [OF assms, of k "countTo q"]]
  by simp

lemma sort_eq_countTo:
  assumes "sort arr = countTo q"
  shows "distinct arr \<and> set arr = set (countTo q)"
proof -
  have "mset arr = mset (countTo q)"
    using arg_cong [OF assms, of mset] by simp
  then show ?thesis
    using mset_eq_imp_distinct_iff [of arr "countTo q"] mset_eq_setD [of arr "countTo q"]
    by simp
qed

lemma indexOf_nth: "distinct arr \<Longrightarrow> k < length arr \<Longrightarrow> indexOf arr (arr ! k) = int k"
proof (induction arr arbitrary: k)
  case Nil
  then show ?case by simp
next
  case (Cons a as)
  show ?case
  proof (cases k)
    case 0
    then show ?thesis by simp
  next
    case (Suc k')
    with Cons.prems have "k' < length as" "as ! k' \<noteq> a" "distinct as" by auto
    with Cons.IH [of k'] Suc show ?thesis by (simp add: Let_def)
  qed
qed

lemma map_int_upt: "map int [0 ..< n] = [0 .. int n - 1]"
proof (induction n)
  case 0
  then show ?case by simp
next
  case (Suc n)
  have "[0 .. int (Suc n) - 1] = [0 .. int n - 1] @ [int n]"
    using upto_rec2 [of 0 "int n"] by simp
  then show ?case using Suc by simp
qed

lemma map_indexOf_self:
  assumes "distinct arr"
  shows "map (indexOf arr) arr = [0 .. int (length arr) - 1]"
proof -
  have "map (indexOf arr) arr = map int [0 ..< length arr]"
    by (rule nth_equalityI) (simp_all add: indexOf_nth [OF assms])
  then show ?thesis by (simp only: map_int_upt)
qed

lemma length_permutation:
  assumes "distinct arr" "set arr = set [0 .. n - 1]" "0 \<le> n"
  shows "int (length arr) = n"
proof -
  have "length arr = card (set arr)" using assms(1) by (simp add: distinct_card)
  also have "\<dots> = card {0 .. n - 1}" using assms(2) by simp
  finally show ?thesis using assms(3) by simp
qed

lemma indexOf_permutation:
  assumes "distinct arr" "set arr = set [0 .. n - 1]" "0 \<le> n"
  shows "mset (map (indexOf arr) [0 .. n - 1]) = mset [0 .. n - 1]"
proof -
  have "mset arr = mset [0 .. n - 1]"
    using assms(1,2) by (simp add: set_eq_iff_mset_eq_distinct [symmetric])
  then have "mset (map (indexOf arr) [0 .. n - 1]) = mset (map (indexOf arr) arr)"
    by (simp only: mset_map)
  also have "\<dots> = mset [0 .. n - 1]"
    by (simp only: map_indexOf_self [OF assms(1)] length_permutation [OF assms])
  finally show ?thesis .
qed

section \<open>Invariants of the game object\<close>

lemma wellFormed_update:
  assumes "wellFormed s"
    and "puzzleShape s' = puzzleShape s" "tileCnt s' = tileCnt s"
    and "map index (tiles s') = map index (tiles s)"
    and "map gridOrigin (tiles s') = map gridOrigin (tiles s)"
    and "case fixedShuffleArr s' of None \<Rightarrow> True
         | Some arr \<Rightarrow> distinct arr \<and> set arr = set (countTo (tileCnt s))"
    and "list_all (\<lambda>(t, vt). t < length (tiles s) \<and> vt < length (tiles s)) (moving s')"
  shows "wellFormed s'"
proof -
  have "length (tiles s') = length (tiles s)"
    using arg_cong [OF assms(4), of length] by simp
  then show ?thesis
    using assms unfolding wellFormed_def by (auto split: option.splits)
qed

lemma wellFormed_fixed:
  "wellFormed s \<Longrightarrow> case fixedShuffleArr s of None \<Rightarrow> True
         | Some arr \<Rightarrow> distinct arr \<and> set arr = set (countTo (tileCnt s))"
  by (simp add: wellFormed_def)

lemma wellFormed_moving:
  "wellFormed s \<Longrightarrow>
   list_all (\<lambda>(t, vt). t < length (tiles s) \<and> vt < length (tiles s)) (moving s)"
  by (simp add: wellFormed_def)

lemma wellFormed_shape:
  "wellFormed s \<Longrightarrow> 2 \<le> vx (puzzleShape s) \<and> 2 \<le> vy (puzzleShape s)
     \<and> isInteger (vx (puzzleShape s)) \<and> isInteger (vy (puzzleShape s))
     \<and> tileCnt s = vx (puzzleShape s) * vy (puzzleShape s)"
  by (simp add: wellFormed_def)

lemma wellFormed_arrayLength:
  assumes "wellFormed s"
  shows "arrayLength (tileCnt s)"
proof -
  from wellFormed_size [OF assms]
  have "tileCnt s = of_nat (length (tiles s))" by simp
  moreover have "tileCnt s \<le> 4294967295"
    using assms by (simp add: wellFormed_def)
  ultimately show ?thesis by (simp add: arrayLength_def)
qed

lemma gridPermutation_mset:
  assumes "wellFormed s"
  shows "gridPermutation s \<longleftrightarrow>
         mset (map gridCurrent (tiles s)) = mset (map (toGrid (puzzleShape s)) (countTo (tileCnt s)))"
  using wellFormed_shape [OF assms] by (intro gridPermutation_iff) simp_all

lemma gridPermutation_update:
  assumes "wellFormed s" "wellFormed s'" "gridPermutation s"
    and "puzzleShape s' = puzzleShape s" "tileCnt s' = tileCnt s"
    and "mset (map gridCurrent (tiles s')) = mset (map gridCurrent (tiles s))"
  shows "gridPermutation s'"
  using assms(3,6) unfolding gridPermutation_mset [OF assms(1)] gridPermutation_mset [OF assms(2)]
    assms(4,5) by simp

lemma wellFormed_setVoidAlive: "wellFormed s \<Longrightarrow> wellFormed (setVoidAlive b s)"
  by (rule wellFormed_update [of s])
     (simp_all add: wellFormed_fixed wellFormed_moving)

lemma gridPermutation_setVoidAlive:
  "gridPermutation (setVoidAlive b s) = gridPermutation s"
  by (simp add: gridPermutation_def)

lemma map_swapCurrent:
  "map index (swapCurrent ts t vt) = map index ts"
  "map gridOrigin (swapCurrent ts t vt) = map gridOrigin ts"
proof -
  have upd: "map f (xs[i := (ys ! i)\<lparr>gridCurrent := c\<rparr>]) = map f xs"
    if "\<And>x c. f (x\<lparr>gridCurrent := c\<rparr>) = f x" "map f ys = map f xs"
    for f :: "sptile \<Rightarrow> 'b" and xs ys i c
  proof (cases "i < length xs")
    case True
    then have "i < length ys" using arg_cong [OF that(2), of length] by simp
    then have "f (ys ! i) = f (xs ! i)"
      using arg_cong [OF that(2), of "\<lambda>l. l ! i"] True by simp
    then show ?thesis
      by (simp add: map_update that(1) list_update_same_conv [THEN iffD2] True)
  next
    case False
    then show ?thesis by (simp add: list_update_beyond)
  qed
  show "map index (swapCurrent ts t vt) = map index ts"
    unfolding swapCurrent_def Let_def by (simp add: upd)
  show "map gridOrigin (swapCurrent ts t vt) = map gridOrigin ts"
    unfolding swapCurrent_def Let_def by (simp add: upd)
qed

lemma mset_swapCurrent:
  assumes "t < length ts" "vt < length ts"
  shows "mset (map gridCurrent (swapCurrent ts t vt)) = mset (map gridCurrent ts)"
proof -
  let ?g = "map gridCurrent ts"
  have "map gridCurrent (swapCurrent ts t vt) = ?g[t := ?g ! vt, vt := ?g ! t]"
    by (rule nth_equalityI)
       (use assms in \<open>auto simp: swapCurrent_nth nth_list_update\<close>)
  then show ?thesis using mset_swap [of vt ?g t] assms by simp
qed

lemma started_fields [simp]:
  "puzzleShape (started s arr) = puzzleShape s"
  "tileCnt (started s arr) = tileCnt s"
  "fixedShuffleArr (started s arr) = fixedShuffleArr s"
  "moving (started s arr) = moving s"
  "invoked (started s arr) = invoked s @ [Start]"
  "isRunning (started s arr) = True"
  "lockedInput (started s arr) = lockedInput s"
  "length (tiles (started s arr)) = length (tiles s)"
  by (simp_all add: started_def)

lemma started_maps:
  "map index (tiles (started s arr)) = map index (tiles s)"
  "map gridOrigin (tiles (started s arr)) = map gridOrigin (tiles s)"
  "map gridCurrent (tiles (started s arr))
   = map (\<lambda>n. toGrid (puzzleShape s) (indexOf arr n)) (map index (tiles s))"
proof -
  let ?h = "setVoidAlive False (s\<lparr>invoked := invoked s @ [Start]\<rparr>)"
  have i: "map index (tiles ?h) = map index (tiles s)" by simp
  have o: "map gridOrigin (tiles ?h) = map gridOrigin (tiles s)" by simp
  show "map index (tiles (started s arr)) = map index (tiles s)"
    using i by (simp add: started_def comp_def)
  show "map gridOrigin (tiles (started s arr)) = map gridOrigin (tiles s)"
    using o by (simp add: started_def comp_def)
  have "map gridCurrent (tiles (started s arr))
        = map (\<lambda>x. toGrid (puzzleShape s) (indexOf arr (index x))) (tiles ?h)"
    by (simp add: started_def comp_def)
  also have "\<dots> = map (\<lambda>n. toGrid (puzzleShape s) (indexOf arr n)) (map index (tiles ?h))"
    by (simp only: map_map comp_def)
  finally show "map gridCurrent (tiles (started s arr))
   = map (\<lambda>n. toGrid (puzzleShape s) (indexOf arr n)) (map index (tiles s))"
    by (simp only: i)
qed

lemma wellFormed_started: "wellFormed s \<Longrightarrow> wellFormed (started s arr)"
  by (rule wellFormed_update [of s])
     (simp_all add: started_maps wellFormed_fixed wellFormed_moving)

lemma gridPermutation_started:
  assumes "wellFormed s" "distinct arr" "set arr = set (countTo (tileCnt s))"
  shows "gridPermutation (started s arr)"
proof -
  let ?L = "int (length (tiles s))"
  have cnt: "countTo (tileCnt s) = [0 .. ?L - 1]"
    using assms(1) by (rule wellFormed_countTo)
  have n: "0 \<le> ?L" by simp
  have idx: "map index (tiles s) = countTo (tileCnt s)"
    using assms(1) by (simp add: wellFormed_def)
  have perm: "mset (map (indexOf arr) (countTo (tileCnt s))) = mset (countTo (tileCnt s))"
    using indexOf_permutation [OF assms(2) assms(3) [unfolded cnt] n] unfolding cnt .
  have "map gridCurrent (tiles (started s arr))
        = map (toGrid (puzzleShape s)) (map (indexOf arr) (countTo (tileCnt s)))"
    by (simp only: started_maps idx map_map comp_def)
  then have "mset (map gridCurrent (tiles (started s arr)))
        = image_mset (toGrid (puzzleShape s)) (mset (map (indexOf arr) (countTo (tileCnt s))))"
    by (simp only: mset_map)
  also have "\<dots> = image_mset (toGrid (puzzleShape s)) (mset (countTo (tileCnt s)))"
    by (simp only: perm)
  also have "\<dots> = mset (map (toGrid (puzzleShape s)) (countTo (tileCnt s)))"
    by (simp only: mset_map)
  finally show ?thesis
    unfolding gridPermutation_mset [OF wellFormed_started [OF assms(1)]] by simp
qed

lemma repositionTile_toGrid:
  "repositionTile s x n = x\<lparr>gridCurrent := toGrid (puzzleShape s) n\<rparr>"
  by (simp add: repositionTile_def toGrid_def)

lemma gamePlay_start_eq:
  assumes "wellFormed s" "\<not> isRunning s"
  shows "gamePlay s tile random =
     (case fixedShuffleArr s of
        Some arr \<Rightarrow> Some (Inr (started s arr))
      | None \<Rightarrow> map_option (\<lambda>arr. Inr (started s arr))
                  (shuffleUntilSolvable (puzzleShape s) (tileCnt s) random 0))"
proof -
  from wellFormed_size [OF assms(1)]
  have sz: "0 < tileCnt s" "of_nat (length (tiles s)) = tileCnt s" by simp_all
  note al = wellFormed_arrayLength [OF assms(1)]
  let ?h = "setVoidAlive False (s\<lparr>invoked := invoked s @ [Start]\<rparr>)"
  have vis: "voidTileVisibility False (s\<lparr>invoked := invoked s @ [Start]\<rparr>) = Inr ?h"
    using sz by (intro voidTileVisibility_eq) simp_all
  have st: "?h\<lparr>tiles := map (\<lambda>x. repositionTile ?h x (indexOf arr (index x))) (tiles ?h),
               isRunning := True\<rparr> = started s arr" for arr
    by (simp add: started_def repositionTile_toGrid)
  show ?thesis
  proof (cases "fixedShuffleArr s")
    case None
    show ?thesis
    proof (cases "shuffleUntilSolvable (puzzleShape s) (tileCnt s) random 0")
      case n: None
      then show ?thesis
        using assms(2) None al by (simp add: gamePlay_def vis getShuffleArray_def)
    next
      case (Some arr)
      then show ?thesis
        using assms(2) None al st [of arr]
        by (simp add: gamePlay_def vis getShuffleArray_def)
    qed
  next
    case (Some arr)
    then show ?thesis
      using assms(2) st [of arr] by (simp add: gamePlay_def vis getShuffleArray_def)
  qed
qed

lemma shuffleUntilSolvable_Some:
  assumes "shuffleUntilSolvable shape cnt random k = Some arr"
  shows "permutationProof shape arr \<and> (\<exists>k'. arr = fst (shuffle random k' (countTo cnt)))"
proof (rule shuffleUntilSolvable.raw_induct [OF _ assms])
  fix f sh c r kk y
  assume IH: "\<And>shape cnt random k y. f shape cnt random k = Some y \<Longrightarrow>
           permutationProof shape y \<and> (\<exists>k'. y = fst (shuffle random k' (countTo cnt)))"
    and body: "(case shuffle r kk (countTo c) of
                  (shuffleArr, k') \<Rightarrow>
                    if permutationProof sh shuffleArr then Some shuffleArr
                    else f sh c r k') = Some y"
  obtain a k' where sh: "shuffle r kk (countTo c) = (a, k')"
    by (cases "shuffle r kk (countTo c)")
  show "permutationProof sh y \<and> (\<exists>k'. y = fst (shuffle r k' (countTo c)))"
  proof (cases "permutationProof sh a")
    case True
    with body sh have "y = a" by simp
    with True sh show ?thesis by (metis fst_conv)
  next
    case False
    with body sh have "f sh c r k' = Some y" by simp
    then show ?thesis by (rule IH)
  qed
qed

lemma shuffleUntilSolvable_first:
  assumes "\<forall>i < m. \<not> permutationProof shape (attempt cnt random (j + i))"
    and "permutationProof shape (attempt cnt random (j + m))"
  shows "shuffleUntilSolvable shape cnt random (j * (length (countTo cnt) - 1))
         = Some (attempt cnt random (j + m))"
  using assms
proof (induction m arbitrary: j)
  case 0
  obtain a k' where sh: "shuffle random (j * (length (countTo cnt) - 1)) (countTo cnt) = (a, k')"
    by (cases "shuffle random (j * (length (countTo cnt) - 1)) (countTo cnt)")
  then have a: "attempt cnt random j = a" by (simp add: attempt_def)
  have "shuffleUntilSolvable shape cnt random (j * (length (countTo cnt) - 1))
        = (if permutationProof shape a then Some a
           else shuffleUntilSolvable shape cnt random k')"
    by (subst shuffleUntilSolvable.simps) (simp only: sh prod.case)
  then show ?case
    using "0.prems"(2) by (simp add: a)
next
  case (Suc m)
  obtain a k' where sh: "shuffle random (j * (length (countTo cnt) - 1)) (countTo cnt) = (a, k')"
    by (cases "shuffle random (j * (length (countTo cnt) - 1)) (countTo cnt)")
  then have a: "attempt cnt random j = a" by (simp add: attempt_def)
  from Suc.prems(1) have first: "\<not> permutationProof shape a"
    unfolding a [symmetric] by (metis add.right_neutral zero_less_Suc)
  have "k' = snd (shuffle random (j * (length (countTo cnt) - 1)) (countTo cnt))"
    using sh by simp
  then have next_k: "k' = Suc j * (length (countTo cnt) - 1)"
    by (simp add: shuffle_count)
  have "shuffleUntilSolvable shape cnt random (Suc j * (length (countTo cnt) - 1))
        = Some (attempt cnt random (Suc j + m))"
    using Suc.prems by (intro Suc.IH) auto
  moreover have "shuffleUntilSolvable shape cnt random (j * (length (countTo cnt) - 1))
        = (if permutationProof shape a then Some a
           else shuffleUntilSolvable shape cnt random k')"
    by (subst shuffleUntilSolvable.simps) (simp only: sh prod.case)
  ultimately show ?case
    using first by (simp add: next_k)
qed

lemma afterCall_simps [simp]: "afterCall (Inr s) = s" "afterCall (Inl (e, s)) = s"
  by (simp_all add: afterCall_def)

lemma wellFormed_flags [simp]:
  "wellFormed (s\<lparr>invoked := a\<rparr>) = wellFormed s"
  "wellFormed (s\<lparr>isRunning := b\<rparr>) = wellFormed s"
  "wellFormed (s\<lparr>lockedInput := c\<rparr>) = wellFormed s"
  by (simp_all add: wellFormed_def cong: option.case_cong)

lemma gridPermutation_flags [simp]:
  "gridPermutation (s\<lparr>invoked := a\<rparr>) = gridPermutation s"
  "gridPermutation (s\<lparr>isRunning := b\<rparr>) = gridPermutation s"
  "gridPermutation (s\<lparr>lockedInput := c\<rparr>) = gridPermutation s"
  "gridPermutation (s\<lparr>moving := m\<rparr>) = gridPermutation s"
  "gridPermutation (s\<lparr>fixedShuffleArr := f\<rparr>) = gridPermutation s"
  by (simp_all add: gridPermutation_def)

lemma shuffleUntilSolvable_permutation:
  assumes "randomInRange random" "shuffleUntilSolvable shape cnt random k = Some arr"
  shows "distinct arr \<and> set arr = set (countTo cnt) \<and> permutationProof shape arr"
proof -
  from shuffleUntilSolvable_Some [OF assms(2)] obtain k'
    where "permutationProof shape arr" "arr = fst (shuffle random k' (countTo cnt))"
    by blast
  then show ?thesis
    using shuffle_permutation [OF assms(1), of k' cnt] by simp
qed

lemma gamePlay_running_eq:
  assumes "wellFormed s" "isRunning s"
  shows "gamePlay s tile random =
     Some (if lockedInput s \<or> tile = None then Inr s
           else if \<not> the tile < length (tiles s) then Inl (TypeError, s)
           else if lengthSquared (subtract (gridCurrent (tiles s ! nat \<lfloor>tileCnt s - 1\<rfloor>))
                                           (gridCurrent (tiles s ! the tile))) = 1
                then Inr (gameTurn (s\<lparr>invoked := invoked s @ [WillMove]\<rparr>)
                            (the tile) (nat \<lfloor>tileCnt s - 1\<rfloor>))
                else Inr (s\<lparr>invoked := invoked s @ [WillStall]\<rparr>))"
proof -
  from wellFormed_size [OF assms(1)]
  have sz: "0 < tileCnt s" "of_nat (length (tiles s)) = tileCnt s" by simp_all
  show ?thesis
  proof (cases "lockedInput s \<or> tile = None")
    case True
    then show ?thesis using assms(2) by (auto simp: gamePlay_def)
  next
    case False
    then obtain t where t: "tile = Some t" and l: "\<not> lockedInput s" by auto
    show ?thesis
    proof (cases "t < length (tiles s)")
      case True
      then show ?thesis
        using assms(2) l t
        by (simp add: gamePlay_def tileAt_void [OF sz] tileAt_nat Let_def)
    next
      case False
      then have "tileAt (tiles s) (of_nat t) = None" by (simp add: tileAt_def)
      then show ?thesis
        using assms(2) l t False
        by (simp add: gamePlay_def tileAt_void [OF sz])
    qed
  qed
qed

lemma gamePlay_invariant:
  assumes "wellFormed s" "gridPermutation s" "randomInRange random"
    and "gamePlay s tile random = Some r"
  shows "wellFormed (afterCall r) \<and> gridPermutation (afterCall r)"
proof (cases "isRunning s")
  case False
  show ?thesis
  proof (cases "fixedShuffleArr s")
    case None
    with assms(4) obtain arr where
      arr: "shuffleUntilSolvable (puzzleShape s) (tileCnt s) random 0 = Some arr"
      and r: "r = Inr (started s arr)"
      unfolding gamePlay_start_eq [OF assms(1) False] by auto
    from shuffleUntilSolvable_permutation [OF assms(3) arr]
    show ?thesis
      unfolding r using wellFormed_started [OF assms(1)] gridPermutation_started [OF assms(1)]
      by simp
  next
    case (Some arr)
    with assms(4) have r: "r = Inr (started s arr)"
      unfolding gamePlay_start_eq [OF assms(1) False] by simp
    from wellFormed_fixed [OF assms(1)] Some
    have "distinct arr" "set arr = set (countTo (tileCnt s))" by simp_all
    then show ?thesis
      unfolding r using wellFormed_started [OF assms(1)] gridPermutation_started [OF assms(1)]
      by simp
  qed
next
  case True
  from wellFormed_size [OF assms(1)]
  have sz: "0 < tileCnt s" "of_nat (length (tiles s)) = tileCnt s" by simp_all
  have v: "nat \<lfloor>tileCnt s - 1\<rfloor> < length (tiles s)"
    using wellFormed_void [OF assms(1)] by simp
  have turn: "wellFormed (gameTurn (s\<lparr>invoked := invoked s @ [WillMove]\<rparr>) t (nat \<lfloor>tileCnt s - 1\<rfloor>))"
    if "t < length (tiles s)" for t
    by (rule wellFormed_update [of s])
       (use assms(1) that v in \<open>simp_all add: gameTurn_def wellFormed_fixed wellFormed_moving\<close>)
  have turn': "gridPermutation (gameTurn (s\<lparr>invoked := invoked s @ [WillMove]\<rparr>) t vt)" for t vt
    using assms(2) by (simp add: gameTurn_def gridPermutation_def)
  from assms(4) show ?thesis
    unfolding gamePlay_running_eq [OF assms(1) True]
    using assms(1,2) turn turn' by (auto split: if_splits)
qed

lemma moveFinished_invariant:
  assumes "wellFormed s" "gridPermutation s" "(t, vt) \<in> set (moving s)"
  shows "wellFormed (afterCall (moveFinished s (t, vt)))
         \<and> gridPermutation (afterCall (moveFinished s (t, vt)))"
proof -
  from wellFormed_size [OF assms(1)]
  have sz: "2 \<le> tileCnt s" "of_nat (length (tiles s)) = tileCnt s" by simp_all
  from wellFormed_moving [OF assms(1)] assms(3)
  have b: "t < length (tiles s)" "vt < length (tiles s)"
    by (auto simp: list_all_iff)
  let ?s = "s\<lparr>tiles := swapCurrent (tiles s) t vt, moving := remove1 (t, vt) (moving s)\<rparr>"
  have rm: "list_all (\<lambda>(t, vt). t < length (tiles s) \<and> vt < length (tiles s))
          (remove1 (t, vt) (moving s))"
    using wellFormed_moving [OF assms(1)] set_remove1_subset [of "(t, vt)" "moving s"]
    unfolding list_all_iff by blast
  have wf: "wellFormed ?s"
    by (rule wellFormed_update [of s])
       (use assms(1) rm in \<open>simp_all add: map_swapCurrent wellFormed_fixed\<close>)
  have gp: "gridPermutation ?s"
    by (rule gridPermutation_update [OF assms(1) wf assms(2)])
       (use mset_swapCurrent [OF b] in simp_all)
  show ?thesis
    unfolding moveFinished_eq [OF sz] Let_def
    using wf gp wellFormed_setVoidAlive [of "?s\<lparr>invoked := invoked ?s @ [Finish]\<rparr>" True]
    by (simp add: gridPermutation_setVoidAlive)
qed

lemma resolve_invariant:
  assumes "wellFormed s"
  shows "wellFormed (afterCall (resolve s)) \<and> gridPermutation (afterCall (resolve s))"
proof -
  let ?s = "s\<lparr>isRunning := False,
               tiles := map (\<lambda>x. repositionTile (s\<lparr>isRunning := False\<rparr>) x (index x)) (tiles s)\<rparr>"
  have idx: "map index (tiles s) = (countTo (tileCnt s))"
    using assms by (simp add: wellFormed_def)
  have wf: "wellFormed ?s"
    by (rule wellFormed_update [of s])
       (use assms in \<open>simp_all add: repositionTile_toGrid comp_def wellFormed_fixed wellFormed_moving\<close>)
  have "map gridCurrent (tiles ?s) = map (toGrid (puzzleShape s)) (map index (tiles s))"
    by (simp add: repositionTile_toGrid comp_def)
  then have "gridPermutation ?s"
    unfolding gridPermutation_mset [OF wf] idx by simp
  then show ?thesis
    unfolding resolve_eq [OF assms]
    using wellFormed_setVoidAlive [OF wf] by (simp add: gridPermutation_setVoidAlive)
qed

lemma wellFormed_adopt:
  assumes "wellFormed s" "sort arr = (countTo (tileCnt s))"
  shows "wellFormed (s\<lparr>fixedShuffleArr := Some arr\<rparr>)"
  by (rule wellFormed_update [of s])
     (use assms(1) sort_eq_countTo [OF assms(2)] in \<open>simp_all add: wellFormed_moving\<close>)

lemma wellFormed_clear:
  assumes "wellFormed s"
  shows "wellFormed (s\<lparr>fixedShuffleArr := None\<rparr>)"
  by (rule wellFormed_update [of s]) (use assms in \<open>simp_all add: wellFormed_moving\<close>)

lemma reShuffle_invariant:
  assumes "wellFormed s" "gridPermutation s" "randomInRange random"
    and "reShuffle s fixedArr random = Some r"
  shows "wellFormed (afterCall r) \<and> gridPermutation (afterCall r)"
proof (cases fixedArr)
  case None
  with assms(4) have "gamePlay (s\<lparr>isRunning := False, fixedShuffleArr := None\<rparr>) None random = Some r"
    by (simp add: reShuffle_def)
  moreover have "wellFormed (s\<lparr>isRunning := False, fixedShuffleArr := None\<rparr>)"
    using wellFormed_clear [of "s\<lparr>isRunning := False\<rparr>"] assms(1) by simp
  moreover have "gridPermutation (s\<lparr>isRunning := False, fixedShuffleArr := None\<rparr>)"
    using assms(2) by simp
  ultimately show ?thesis using assms(3) by (intro gamePlay_invariant)
next
  case (Some arr)
  let ?s = "s\<lparr>isRunning := False\<rparr>"
  show ?thesis
  proof (cases "setfixedShuffleArr ?s arr")
    case (Inl e)
    then have "e = (fst e, ?s)"
      unfolding setfixedShuffleArr_eq by (auto split: if_splits)
    moreover from Inl Some assms(4) have "r = Inl e" by (simp add: reShuffle_def)
    ultimately have "afterCall r = ?s" by (metis afterCall_simps(2))
    then show ?thesis using assms(1,2) by simp
  next
    case (Inr s')
    then have s': "s' = ?s\<lparr>fixedShuffleArr := Some arr\<rparr>" and "sort arr = (countTo (tileCnt ?s))"
      unfolding setfixedShuffleArr_eq by (auto split: if_splits)
    then have "wellFormed s'"
      using wellFormed_adopt [of ?s arr] assms(1) by simp
    moreover have "gridPermutation s'" using assms(2) s' by simp
    moreover from Inr Some assms(4) have "gamePlay s' None random = Some r"
      by (simp add: reShuffle_def)
    ultimately show ?thesis using assms(3) by (intro gamePlay_invariant)
  qed
qed

lemma newTile_fields [simp]:
  "index (newTile shape n) = n"
  "gridOrigin (newTile shape n) = toGrid shape n"
  "gridCurrent (newTile shape n) = toGrid shape n"
  "alive (newTile shape n) = False"
  by (simp_all add: newTile_def toGrid_def Let_def)

lemma fresh_invariant:
  assumes "2 \<le> X" "2 \<le> Y" "X * Y \<le> 4294967295"
    and "shape = Vector2 (of_int X) (of_int Y)"
    and "case fixed of None \<Rightarrow> True
         | Some arr \<Rightarrow> distinct arr \<and> set arr = set (countTo (vx shape * vy shape))"
  shows "wellFormed \<lparr>tiles = map (newTile shape) (countTo (vx shape * vy shape)),
            isRunning = False, lockedInput = False, puzzleShape = shape,
            tileCnt = vx shape * vy shape, fixedShuffleArr = fixed, invoked = [],
            moving = []\<rparr>" (is "wellFormed ?s")
    and "gridPermutation \<lparr>tiles = map (newTile shape) (countTo (vx shape * vy shape)),
            isRunning = False, lockedInput = False, puzzleShape = shape,
            tileCnt = vx shape * vy shape, fixedShuffleArr = fixed, invoked = [],
            moving = []\<rparr>"
proof -
  have "(of_int (X * Y) :: rat) \<le> of_int 4294967295"
    using assms(3) by (simp only: of_int_le_iff)
  then have bound: "vx shape * vy shape \<le> 4294967295"
    unfolding assms(4) by simp
  have two: "(2 :: rat) \<le> of_int X" "(2 :: rat) \<le> of_int Y"
    using assms(1,2) by simp_all
  show wf: "wellFormed ?s"
    using assms(5) bound two unfolding assms(4)
    by (simp add: wellFormed_def comp_def cong: option.case_cong)
  show "gridPermutation ?s"
    unfolding gridPermutation_mset [OF wf] by (simp add: comp_def)
qed

lemma alive_all_invariant:
  assumes "wellFormed s" "gridPermutation s"
  shows "wellFormed (s\<lparr>tiles := map (\<lambda>x. x\<lparr>alive := True\<rparr>) (tiles s)\<rparr>)"
    and "gridPermutation (s\<lparr>tiles := map (\<lambda>x. x\<lparr>alive := True\<rparr>) (tiles s)\<rparr>)"
proof -
  show "wellFormed (s\<lparr>tiles := map (\<lambda>x. x\<lparr>alive := True\<rparr>) (tiles s)\<rparr>)"
    by (rule wellFormed_update [of s])
       (use assms(1) in \<open>simp_all add: comp_def wellFormed_fixed wellFormed_moving\<close>)
  show "gridPermutation (s\<lparr>tiles := map (\<lambda>x. x\<lparr>alive := True\<rparr>) (tiles s)\<rparr>)"
    using assms(2) by (simp add: gridPermutation_def comp_def)
qed

lemma init_invariant:
  assumes "randomInRange random" "init su random = Some (Inr s)"
    and "isInteger (vx (setupShape su))" "isInteger (vy (setupShape su))"
  shows "wellFormed s \<and> gridPermutation s"
proof -
  let ?shape = "setupShape su"
  let ?n = "vx ?shape * vy ?shape"
  let ?fresh = "\<lambda>fixed. \<lparr>tiles = map (newTile ?shape) (countTo ?n),
            isRunning = False, lockedInput = False, puzzleShape = ?shape,
            tileCnt = ?n, fixedShuffleArr = fixed, invoked = [], moving = []\<rparr>"
  let ?s0 = "\<lparr>tiles = [], isRunning = False, lockedInput = False, puzzleShape = ?shape,
            tileCnt = ?n, fixedShuffleArr = None, invoked = [], moving = []\<rparr>"
  from assms(3,4) obtain X Y where xy: "vx ?shape = of_int X" "vy ?shape = of_int Y"
    by (elim isInteger_cases)
  then have sh: "?shape = Vector2 (of_int X) (of_int Y)"
    by (cases ?shape) simp
  have chk: "shapeCheck ?shape = None"
    using assms(2) unfolding init_def by (auto split: option.splits)
  then have shape: "2 \<le> X" "2 \<le> Y"
    unfolding sh shapeCheck_integers by (auto split: if_splits)
  obtain fixed where fixed: "case fixed of None \<Rightarrow> True
         | Some arr \<Rightarrow> distinct arr \<and> set arr = set (countTo ?n)"
    and s1: "(case setupFixedShuffle su of Some arr \<Rightarrow> setfixedShuffleArr ?s0 arr
              | None \<Rightarrow> Inr ?s0) = Inr (?s0\<lparr>fixedShuffleArr := fixed\<rparr>)"
  proof (cases "setupFixedShuffle su")
    case None
    then show ?thesis using that [of None] by simp
  next
    case (Some arr)
    with assms(2) have "\<exists>s1. setfixedShuffleArr ?s0 arr = Inr s1"
      unfolding init_def chk by (auto simp: Let_def split: if_splits sum.splits)
    then have "sort arr = countTo ?n"
      "setfixedShuffleArr ?s0 arr = Inr (?s0\<lparr>fixedShuffleArr := Some arr\<rparr>)"
      unfolding setfixedShuffleArr_eq by (auto split: if_splits)
    then show ?thesis
      using that [of "Some arr"] sort_eq_countTo [of arr ?n] Some by simp
  qed
  have fresh: "?s0\<lparr>fixedShuffleArr := fixed,
                   tiles := map (newTile ?shape) (countTo (tileCnt (?s0\<lparr>fixedShuffleArr := fixed\<rparr>)))\<rparr>
               = ?fresh fixed"
    by simp
  have "\<not> 4294967295 < ?n"
    using assms(2) unfolding init_def chk s1 Let_def
    by (auto split: if_splits)
  then have "(of_int (X * Y) :: rat) \<le> of_int 4294967295"
    unfolding xy by simp
  then have bound: "X * Y \<le> 4294967295"
    by (simp only: of_int_le_iff)
  from fresh_invariant [OF shape bound sh fixed]
  have inv: "wellFormed (?fresh fixed)" "gridPermutation (?fresh fixed)" by simp_all
  obtain s3 where s3: "wellFormed s3" "gridPermutation s3"
    and s: "s = s3 \<or> s = s3\<lparr>tiles := map (\<lambda>x. x\<lparr>alive := True\<rparr>) (tiles s3)\<rparr>"
  proof (cases "setupStartShuffle su = Some True")
    case True
    with assms(2) obtain s3 where g: "gamePlay (?fresh fixed) None random = Some (Inr s3)"
      and s: "s = s3 \<or> s = s3\<lparr>tiles := map (\<lambda>x. x\<lparr>alive := True\<rparr>) (tiles s3)\<rparr>"
      unfolding init_def chk s1 Let_def
      by (auto simp: fresh split: if_splits option.splits sum.splits)
    from gamePlay_invariant [OF inv assms(1) g] show ?thesis
      using that [of s3] s by simp
  next
    case False
    with assms(2)
    have "s = ?fresh fixed
          \<or> s = (?fresh fixed)\<lparr>tiles := map (\<lambda>x. x\<lparr>alive := True\<rparr>) (tiles (?fresh fixed))\<rparr>"
      unfolding init_def chk s1 Let_def
      by (auto simp: fresh split: if_splits)
    then show ?thesis using that [of "?fresh fixed"] inv by blast
  qed
  show ?thesis
    using s s3 alive_all_invariant [OF s3] by auto
qed

lemma step_invariant:
  assumes "wellFormed s" "gridPermutation s" "randomInRange random"
    and "step s ev random = Some s'"
  shows "wellFormed s' \<and> gridPermutation s'"
proof (cases ev)
  case (Click tile)
  with assms(4) obtain r where "gamePlay s tile random = Some r" "s' = afterCall r"
    by (auto simp: step_def)
  then show ?thesis using gamePlay_invariant [OF assms(1-3)] by simp
next
  case (AnimationDone p)
  show ?thesis
  proof (cases "p \<in> set (moving s)")
    case True
    with AnimationDone assms(4) have "s' = afterCall (moveFinished s p)"
      by (simp add: step_def)
    then show ?thesis
      using moveFinished_invariant [OF assms(1,2), of "fst p" "snd p"] True by simp
  next
    case False
    with AnimationDone assms(4) have "s' = s" by (simp add: step_def)
    then show ?thesis using assms(1,2) by simp
  qed
next
  case Resolve
  with assms(4) have "s' = afterCall (resolve s)" by (simp add: step_def)
  then show ?thesis using resolve_invariant [OF assms(1)] by simp
next
  case (ReShuffle arr)
  with assms(4) obtain r where "reShuffle s arr random = Some r" "s' = afterCall r"
    by (auto simp: step_def)
  then show ?thesis using reShuffle_invariant [OF assms(1-3)] by simp
qed

lemma reachable_invariant:
  assumes "reachable su s"
    and "isInteger (vx (setupShape su))" "isInteger (vy (setupShape su))"
  shows "wellFormed s \<and> gridPermutation s"
  using assms
proof (induction rule: reachable.induct)
  case (constructed random su s)
  then show ?case by (intro init_invariant)
next
  case (stepped su s random ev s')
  then show ?case using step_invariant by blast
qed

section \<open>Completion and the grid invariant\<close>





text \<open>
  C5. The claim is that in every state of a constructed puzzle the current positions of the
  tiles are a permutation of the cells of the grid. The constructor accepts the shape
  (2.5, 2.5) and builds seven tiles for it, the fourth on row 1 and column 0.5, which is
  a cell of no grid; the positions of the tiles are not the cells of the grid of that
  shape. (For shapes with integer components the claim holds in every reachable state:
  \<open>reachable_invariant\<close>.)
\<close>

theorem fractional_shape_no_grid:
  "init fractionalSetup alwaysFirst = Some (Inr fractionalGame)
   \<and> length (tiles fractionalGame) = 7
   \<and> gridCurrent (tiles fractionalGame ! 3) = Vector2 1 (1 / 2)
   \<and> Vector2 1 (1 / 2) \<notin> set (gridCells (puzzleShape fractionalGame))
   \<and> \<not> gridPermutation fractionalGame"
proof -
  have "init fractionalSetup alwaysFirst = Some (Inr fractionalGame)" by code_simp
  moreover have "length (tiles fractionalGame) = 7"
    "gridCurrent (tiles fractionalGame ! 3) = Vector2 1 (1 / 2)"
    by (simp_all add: fractionalGame_def)
  moreover have "Vector2 1 (1 / 2) \<notin> set (gridCells (puzzleShape fractionalGame))"
    by code_simp
  moreover have "\<not> gridPermutation fractionalGame" by code_simp
  ultimately show ?thesis by simp
qed

section \<open>Starting a game\<close>

lemma started_tile:
  assumes "n < length (tiles this)"
  shows "gridCurrent (tiles (started this arr) ! n)
         = toGrid (puzzleShape this) (indexOf arr (index (tiles this ! n)))"
proof -
  have "map gridCurrent (tiles (started this arr)) ! n
        = map (\<lambda>n. toGrid (puzzleShape this) (indexOf arr n)) (map index (tiles this)) ! n"
    by (simp only: started_maps)
  then show ?thesis using assms by simp
qed

lemma started_void_hidden:
  assumes "wellFormed this"
  shows "\<not> alive (tiles (started this arr) ! nat \<lfloor>tileCnt this - 1\<rfloor>)"
proof -
  from wellFormed_size [OF assms]
  have sz: "0 < tileCnt this" "of_nat (length (tiles this)) = tileCnt this" by simp_all
  have v: "nat \<lfloor>tileCnt this - 1\<rfloor> < length (tiles this)"
    using wellFormed_void [OF assms] by simp
  let ?h = "this\<lparr>invoked := invoked this @ [Start]\<rparr>"
  have "\<not> alive (tiles (setVoidAlive False ?h) ! nat \<lfloor>tileCnt ?h - 1\<rfloor>)"
    using setVoidAlive_alive [of ?h False] sz by simp
  then show ?thesis using v by (simp add: started_def)
qed

text \<open>
  A click on a well-formed game that is not running starts a new game, whatever was
  clicked and whether or not the input is locked: the start action is invoked, the void
  tile is taken from the engine, every tile is put on the cell of its place in the
  arrangement, and the game is running. The arrangement is the stored fixed shuffle when
  there is one. Otherwise it is the first array of the shuffle loop that
  \<open>permutationProof\<close> accepts; the call returns as soon as there is such an array, and
  whenever it returns it has started the game with an accepted array.
\<close>

lemma gamePlay_start_wellFormed:
  assumes "wellFormed this" "\<not> isRunning this"
  shows "(\<forall>arr. fixedShuffleArr this = Some arr \<longrightarrow>
            gamePlay this tile random = Some (Inr (started this arr)))
       \<and> (fixedShuffleArr this = None \<longrightarrow>
            (\<forall>m. (\<forall>i < m. \<not> permutationProof (puzzleShape this) (attempt (tileCnt this) random i))
               \<longrightarrow> permutationProof (puzzleShape this) (attempt (tileCnt this) random m)
               \<longrightarrow> gamePlay this tile random
                     = Some (Inr (started this (attempt (tileCnt this) random m))))
          \<and> (\<forall>r. gamePlay this tile random = Some r \<longrightarrow>
                 (\<exists>arr. r = Inr (started this arr) \<and> permutationProof (puzzleShape this) arr)))
       \<and> (\<forall>arr. invoked (started this arr) = invoked this @ [Start]
               \<and> \<not> alive (tiles (started this arr) ! nat \<lfloor>tileCnt this - 1\<rfloor>)
               \<and> isRunning (started this arr)
               \<and> (\<forall>n < length (tiles this).
                     gridCurrent (tiles (started this arr) ! n)
                     = toGrid (puzzleShape this) (indexOf arr (index (tiles this ! n)))))"
proof (intro conjI allI impI)
  fix arr assume "fixedShuffleArr this = Some arr"
  then show "gamePlay this tile random = Some (Inr (started this arr))"
    unfolding gamePlay_start_eq [OF assms] by simp
next
  fix m
  assume none: "fixedShuffleArr this = None"
    and "\<forall>i < m. \<not> permutationProof (puzzleShape this) (attempt (tileCnt this) random i)"
    and "permutationProof (puzzleShape this) (attempt (tileCnt this) random m)"
  then have "shuffleUntilSolvable (puzzleShape this) (tileCnt this) random 0
             = Some (attempt (tileCnt this) random m)"
    using shuffleUntilSolvable_first [of m "puzzleShape this" "tileCnt this" random 0] by simp
  then show "gamePlay this tile random = Some (Inr (started this (attempt (tileCnt this) random m)))"
    unfolding gamePlay_start_eq [OF assms] using none by simp
next
  fix r
  assume none: "fixedShuffleArr this = None" and "gamePlay this tile random = Some r"
  then obtain arr where
    "shuffleUntilSolvable (puzzleShape this) (tileCnt this) random 0 = Some arr"
    "r = Inr (started this arr)"
    unfolding gamePlay_start_eq [OF assms] by auto
  then show "\<exists>arr. r = Inr (started this arr) \<and> permutationProof (puzzleShape this) arr"
    using shuffleUntilSolvable_Some by blast
next
  fix arr show "invoked (started this arr) = invoked this @ [Start]" by simp
next
  fix arr show "\<not> alive (tiles (started this arr) ! nat \<lfloor>tileCnt this - 1\<rfloor>)"
    using assms(1) by (rule started_void_hidden)
next
  fix arr show "isRunning (started this arr)" by simp
next
  fix arr n assume "n < length (tiles this)"
  then show "gridCurrent (tiles (started this arr) ! n)
             = toGrid (puzzleShape this) (indexOf arr (index (tiles this ! n)))"
    by (rule started_tile)
qed

lemma gamePlay_start_example:
  "gamePlay (exampleGame\<lparr>isRunning := False, lockedInput := True\<rparr>) (Some 2) (\<lambda>k n. 0)
     = Some (Inr (started (exampleGame\<lparr>isRunning := False, lockedInput := True\<rparr>) [1, 2, 3, 0]))
   \<and> gamePlay (exampleGame\<lparr>isRunning := False, fixedShuffleArr := Some [0, 1, 3, 2]\<rparr>) None
        (\<lambda>k n. 0)
     = Some (Inr (started (exampleGame\<lparr>isRunning := False, fixedShuffleArr := Some [0, 1, 3, 2]\<rparr>)
                    [0, 1, 3, 2]))"
proof -
  let ?a = "exampleGame\<lparr>isRunning := False, lockedInput := True\<rparr>"
  let ?b = "exampleGame\<lparr>isRunning := False, fixedShuffleArr := Some [0, 1, 3, 2]\<rparr>"
  have wa: "wellFormed ?a" by code_simp
  have wb: "wellFormed ?b" by code_simp
  have ra: "\<not> isRunning ?a" and rb: "\<not> isRunning ?b" by simp_all
  have na: "fixedShuffleArr ?a = None" by (simp add: exampleGame_def)
  have fb: "fixedShuffleArr ?b = Some [0, 1, 3, 2]" by simp
  have att: "attempt (tileCnt ?a) (\<lambda>k n. 0) 0 = [1, 2, 3, 0]" by code_simp
  have pp: "permutationProof (puzzleShape ?a) [1, 2, 3, 0]" by code_simp
  from gamePlay_start_wellFormed [OF wa ra, of "Some 2" "\<lambda>k n. 0"] na
  have "\<forall>m. (\<forall>i < m. \<not> permutationProof (puzzleShape ?a) (attempt (tileCnt ?a) (\<lambda>k n. 0) i))
               \<longrightarrow> permutationProof (puzzleShape ?a) (attempt (tileCnt ?a) (\<lambda>k n. 0) m)
               \<longrightarrow> gamePlay ?a (Some 2) (\<lambda>k n. 0)
                     = Some (Inr (started ?a (attempt (tileCnt ?a) (\<lambda>k n. 0) m)))"
    by blast
  from this [rule_format, of 0] att pp
  have 1: "gamePlay ?a (Some 2) (\<lambda>k n. 0) = Some (Inr (started ?a [1, 2, 3, 0]))"
    by simp
  from gamePlay_start_wellFormed [OF wb rb, of None "\<lambda>k n. 0"] fb
  have 2: "gamePlay ?b None (\<lambda>k n. 0) = Some (Inr (started ?b [0, 1, 3, 2]))"
    by blast
  from 1 2 show ?thesis by (rule conjI)
qed

text \<open>
  C10. The claim is that every click processed while the game is not running starts a new
  game. The puzzle that the constructor builds from the shape (2.5, 2.5) is not running;
  a click on it, on any tile or on none, invokes the start action and then throws a
  \<open>TypeError\<close> in \<open>voidTileVisibility\<close>, because there is no tile at position 5.25 of
  the array of tiles: the void tile is not hidden, no tile is repositioned and the game
  is still not running.
\<close>

theorem gamePlay_start_fractional:
  "init fractionalSetup alwaysFirst = Some (Inr fractionalGame)
   \<and> \<not> isRunning fractionalGame
   \<and> tileCnt fractionalGame - 1 = 21 / 4
   \<and> tileAt (tiles fractionalGame) (tileCnt fractionalGame - 1) = None
   \<and> gamePlay fractionalGame (Some 0) alwaysFirst
       = Some (Inl (TypeError, fractionalGame\<lparr>invoked := [Start]\<rparr>))
   \<and> gamePlay fractionalGame None alwaysFirst
       = Some (Inl (TypeError, fractionalGame\<lparr>invoked := [Start]\<rparr>))"
proof -
  have "init fractionalSetup alwaysFirst = Some (Inr fractionalGame)" by code_simp
  moreover have "\<not> isRunning fractionalGame" "tileCnt fractionalGame - 1 = 21 / 4"
    by (simp_all add: fractionalGame_def)
  moreover have "tileAt (tiles fractionalGame) (tileCnt fractionalGame - 1) = None"
    by code_simp
  moreover have "gamePlay fractionalGame (Some 0) alwaysFirst
       = Some (Inl (TypeError, fractionalGame\<lparr>invoked := [Start]\<rparr>))"
    by code_simp
  moreover have "gamePlay fractionalGame None alwaysFirst
       = Some (Inl (TypeError, fractionalGame\<lparr>invoked := [Start]\<rparr>))"
    by code_simp
  ultimately show ?thesis by simp
qed

section \<open>The stored fixed shuffle\<close>

lemma voidTileVisibility_fixed:
  "fixedShuffleArr (afterCall (voidTileVisibility b s)) = fixedShuffleArr s"
  by (simp add: voidTileVisibility_def afterCall_def split: option.splits)

lemma voidTileVisibility_Inr_fixed:
  "voidTileVisibility b s = Inr s' \<Longrightarrow> fixedShuffleArr s' = fixedShuffleArr s"
  using voidTileVisibility_fixed [of b s] by simp

lemma voidTileVisibility_Inl_fixed:
  "voidTileVisibility b s = Inl (e, s') \<Longrightarrow> fixedShuffleArr s' = fixedShuffleArr s"
  using voidTileVisibility_fixed [of b s] by simp

lemma gamePlay_fixed:
  assumes "fixedShuffleArr s = Some arr"
  shows "\<exists>r. gamePlay s tile random = Some r \<and> fixedShuffleArr (afterCall r) = Some arr"
proof (cases "isRunning s")
  case True
  then show ?thesis
    using assms
    by (auto simp: gamePlay_def gameTurn_def Let_def split: option.splits)
next
  case False
  let ?h = "s\<lparr>invoked := invoked s @ [Start]\<rparr>"
  show ?thesis
  proof (cases "voidTileVisibility False ?h")
    case (Inl e)
    then have "fixedShuffleArr (snd e) = Some arr"
      using voidTileVisibility_Inl_fixed [of False ?h "fst e" "snd e"] assms by simp
    then have "fixedShuffleArr (afterCall (Inl e)) = Some arr"
      by (cases e) simp
    then show ?thesis using False Inl by (simp add: gamePlay_def)
  next
    case (Inr s')
    then have "fixedShuffleArr s' = Some arr"
      using voidTileVisibility_Inr_fixed [of False ?h s'] assms by simp
    then show ?thesis
      using False Inr by (simp add: gamePlay_def getShuffleArray_def)
  qed
qed

lemma checkAndFinish_fixed:
  "checkAndFinish s = Inl (e, s') \<Longrightarrow> fixedShuffleArr s' = fixedShuffleArr s"
  "checkAndFinish s = Inr (b, s') \<Longrightarrow> fixedShuffleArr s' = fixedShuffleArr s"
proof -
  let ?h = "s\<lparr>invoked := invoked s @ [Finish]\<rparr>"
  have v: "fixedShuffleArr (afterCall (voidTileVisibility True ?h)) = fixedShuffleArr s"
    by (simp add: voidTileVisibility_fixed)
  show "checkAndFinish s = Inl (e, s') \<Longrightarrow> fixedShuffleArr s' = fixedShuffleArr s"
    using v by (auto simp: checkAndFinish_def Let_def split: option.splits if_splits sum.splits)
  show "checkAndFinish s = Inr (b, s') \<Longrightarrow> fixedShuffleArr s' = fixedShuffleArr s"
    using v by (auto simp: checkAndFinish_def Let_def split: option.splits if_splits sum.splits)
qed

lemma moveFinished_fixed:
  "fixedShuffleArr (afterCall (moveFinished s p)) = fixedShuffleArr s"
proof (cases p)
  case (Pair t vt)
  let ?s = "s\<lparr>tiles := swapCurrent (tiles s) t vt, moving := remove1 (t, vt) (moving s)\<rparr>"
  have eq: "moveFinished s (t, vt) =
     (case checkAndFinish ?s of Inl e \<Rightarrow> Inl e
      | Inr (result, s') \<Rightarrow> Inr (s'\<lparr>lockedInput := False\<rparr>))"
    by (simp add: moveFinished.simps Let_def swapCurrent_def)
  show ?thesis
  proof (cases "checkAndFinish ?s")
    case (Inl e)
    then show ?thesis
      using checkAndFinish_fixed(1) [of ?s "fst e" "snd e"] Pair eq by (cases e) simp
  next
    case (Inr r)
    then show ?thesis
      using checkAndFinish_fixed(2) [of ?s "fst r" "snd r"] Pair eq by (cases r) simp
  qed
qed

lemma resolve_fixed: "fixedShuffleArr (afterCall (resolve s)) = fixedShuffleArr s"
  by (simp add: resolve_def Let_def voidTileVisibility_fixed)

lemma step_fixed:
  assumes "fixedShuffleArr s = Some arr" "\<not> isReShuffle ev"
  shows "\<exists>s'. step s ev random = Some s' \<and> fixedShuffleArr s' = Some arr"
proof (cases ev)
  case (Click tile)
  from gamePlay_fixed [OF assms(1), of tile random] show ?thesis
    unfolding Click by (auto simp: step_def)
next
  case (AnimationDone p)
  then show ?thesis using assms(1) by (simp add: step_def moveFinished_fixed)
next
  case Resolve
  then show ?thesis using assms(1) by (simp add: step_def resolve_fixed)
next
  case (ReShuffle a)
  then show ?thesis using assms(2) by simp
qed

lemma run_fixed:
  assumes "fixedShuffleArr s = Some arr" "list_all (\<lambda>(ev, random). \<not> isReShuffle ev) evs"
  shows "\<exists>s'. run s evs = Some s' \<and> fixedShuffleArr s' = Some arr"
  using assms
proof (induction evs arbitrary: s)
  case Nil
  then show ?case by simp
next
  case (Cons e evs)
  obtain ev random where e: "e = (ev, random)" by (cases e)
  with Cons.prems obtain s' where "step s ev random = Some s'" "fixedShuffleArr s' = Some arr"
    using step_fixed [of s arr ev random] by auto
  then show ?case using Cons.IH [of s'] Cons.prems(2) e by simp
qed

lemma init_adopts:
  assumes "init su random = Some (Inr s)" "setupFixedShuffle su = Some arr"
  shows "fixedShuffleArr s = Some arr"
proof -
  let ?shape = "setupShape su"
  let ?s0 = "\<lparr>tiles = [], isRunning = False, lockedInput = False, puzzleShape = ?shape,
            tileCnt = vx ?shape * vy ?shape, fixedShuffleArr = None, invoked = [],
            moving = []\<rparr>"
  from assms obtain s1 where s1: "setfixedShuffleArr ?s0 arr = Inr s1"
    by (auto simp: init_def Let_def split: option.splits if_splits sum.splits)
  then have f1: "fixedShuffleArr s1 = Some arr"
    by (auto simp: setfixedShuffleArr_def Let_def split: if_splits)
  let ?s2 = "s1\<lparr>tiles := map (newTile ?shape) (countTo (tileCnt s1))\<rparr>"
  have f2: "fixedShuffleArr ?s2 = Some arr" using f1 by simp
  from gamePlay_fixed [OF f2, of None random] obtain r where
    r: "gamePlay ?s2 None random = Some r" "fixedShuffleArr (afterCall r) = Some arr"
    by blast
  show ?thesis
  proof (cases "setupStartShuffle su = Some True")
    case True
    with assms s1 r obtain s3 where "r = Inr s3"
      and "s = s3 \<or> s = s3\<lparr>tiles := map (\<lambda>x. x\<lparr>alive := True\<rparr>) (tiles s3)\<rparr>"
      by (auto simp: init_def Let_def split: option.splits if_splits sum.splits)
    then show ?thesis using r(2) by auto
  next
    case False
    with assms s1
    have "s = ?s2 \<or> s = ?s2\<lparr>tiles := map (\<lambda>x. x\<lparr>alive := True\<rparr>) (tiles ?s2)\<rparr>"
      by (auto simp: init_def Let_def split: option.splits if_splits sum.splits)
    then show ?thesis using f2 by auto
  qed
qed

lemma reShuffle_adopts:
  assumes "reShuffle s0 (Some arr) random = Some (Inr s)"
  shows "fixedShuffleArr s = Some arr"
proof -
  from assms obtain s1 where s1: "setfixedShuffleArr (s0\<lparr>isRunning := False\<rparr>) arr = Inr s1"
    and g: "gamePlay s1 None random = Some (Inr s)"
    by (auto simp: reShuffle_def Let_def split: sum.splits)
  from s1 have "fixedShuffleArr s1 = Some arr"
    by (auto simp: setfixedShuffleArr_def Let_def split: if_splits)
  from gamePlay_fixed [OF this, of None random] g show ?thesis by auto
qed

text \<open>
  C9. After a fixed shuffle has been adopted, by \<open>reShuffle\<close> or by the constructor,
  every sequence of clicks, finished animations and calls of \<open>resolve\<close> ends in a state
  that still stores it; \<open>getShuffleArray\<close> returns what is stored without testing it, and
  a start of the game from that state uses it.
\<close>
theorem fixed_shuffle_reused:
  assumes "reShuffle s0 (Some arr) random0 = Some (Inr this)
           \<or> (init su random0 = Some (Inr this) \<and> setupFixedShuffle su = Some arr)"
    and "list_all (\<lambda>(ev, random). \<not> isReShuffle ev) evs"
  shows "(\<exists>s. run this evs = Some s \<and> fixedShuffleArr s = Some arr
             \<and> getShuffleArray s random = Some (Inr arr)
             \<and> (wellFormed s \<longrightarrow> \<not> isRunning s \<longrightarrow>
                  gamePlay s tile random = Some (Inr (started s arr))))
         \<and> (\<forall>g a. fixedShuffleArr g = Some a \<longrightarrow> getShuffleArray g random = Some (Inr a))"
proof -
  from assms(1) have "fixedShuffleArr this = Some arr"
    using reShuffle_adopts init_adopts by blast
  from run_fixed [OF this assms(2)] obtain s where
    s: "run this evs = Some s" "fixedShuffleArr s = Some arr"
    by blast
  have "gamePlay s tile random = Some (Inr (started s arr))"
    if "wellFormed s" "\<not> isRunning s"
    unfolding gamePlay_start_eq [OF that] using s(2) by simp
  then show ?thesis
    using s by (auto simp: getShuffleArray_def)
qed

theorem fixed_shuffle_reused_witness:
  "\<exists>this s. reShuffle exampleGame (Some [0, 1, 3, 2]) (\<lambda>k n. 0) = Some (Inr this)
     \<and> run this [(Click (Some 2), \<lambda>k n. 0), (Resolve, \<lambda>k n. 0)] = Some s
     \<and> fixedShuffleArr s = Some [0, 1, 3, 2]
     \<and> getShuffleArray s (\<lambda>k n. 0) = Some (Inr [0, 1, 3, 2])
     \<and> gamePlay s None (\<lambda>k n. 0) = Some (Inr (started s [0, 1, 3, 2]))"
proof -
  let ?g = "started (exampleGame\<lparr>isRunning := False, fixedShuffleArr := Some [0, 1, 3, 2]\<rparr>)
                 [0, 1, 3, 2]"
  let ?evs = "[(Click (Some 2), \<lambda>k n. 0 :: nat), (Resolve, \<lambda>k n. 0)]"
  have r: "reShuffle exampleGame (Some [0, 1, 3, 2]) (\<lambda>k n. 0) = Some (Inr ?g)"
    by code_simp
  have e: "list_all (\<lambda>(ev, random). \<not> isReShuffle ev) ?evs" by simp
  from conjunct1 [OF fixed_shuffle_reused [OF disjI1 [OF r] e, of "\<lambda>k n. 0" None]]
  obtain s where s: "run ?g ?evs = Some s" "fixedShuffleArr s = Some [0, 1, 3, 2]"
    "getShuffleArray s (\<lambda>k n. 0) = Some (Inr [0, 1, 3, 2])"
    "wellFormed s \<longrightarrow> \<not> isRunning s \<longrightarrow>
       gamePlay s None (\<lambda>k n. 0) = Some (Inr (started s [0, 1, 3, 2]))"
    by blast
  have "wellFormed (the (run ?g ?evs))" "\<not> isRunning (the (run ?g ?evs))"
    by code_simp+
  then have "wellFormed s" "\<not> isRunning s" using s(1) by simp_all
  with s r show ?thesis by blast
qed

end
